theory Spec2Isabelle
  imports Main "HOL-Library.Word" "HOL-Library.AList"
begin

unbundle bit_operations_syntax

section \<open>JavaScript values\<close>

text \<open>
  The fragment of JavaScript values the runtime handles: primitives, raw objects
  (by reference) and reactive proxies (by reference).
  Numbers are integers plus \<open>NaN\<close>; floating point is not modelled.
\<close>

datatype jsval =
    VUndef
  | VNull
  | VBool bool
  | VNum int
  | VNaN
  | VStr string
  | VObj nat
  | VProxy nat

text \<open>JavaScript truthiness, as used by \<open>||\<close>, \<open>!\<close> and \<open>if\<close>.\<close>

fun truthy :: "jsval \<Rightarrow> bool" where
  "truthy VUndef = False"
| "truthy VNull = False"
| "truthy (VBool b) = b"
| "truthy (VNum n) = (n \<noteq> 0)"
| "truthy VNaN = False"
| "truthy (VStr s) = (s \<noteq> [])"
| "truthy (VObj _) = True"
| "truthy (VProxy _) = True"

text \<open>Strict equality \<open>===\<close>: structural on primitives, by reference on objects,
  and \<open>NaN === NaN\<close> is false.\<close>

fun strict_eq :: "jsval \<Rightarrow> jsval \<Rightarrow> bool" where
  "strict_eq VNaN _ = False"
| "strict_eq _ VNaN = False"
| "strict_eq a b = (a = b)"

text \<open>\<open>val !== null && typeof val === 'object'\<close> (reactive.ts, isObject).\<close>

fun isObject :: "jsval \<Rightarrow> bool" where
  "isObject (VObj _) = True"
| "isObject (VProxy _) = True"
| "isObject _ = False"

section \<open>Virtual nodes (runtime-core/vnode.ts)\<close>

text \<open>The \<open>type\<close> field: a tag name, the \<open>Text\<close> or \<open>Fragment\<close> symbol, a component
  object (by reference), a function (by reference) or any other symbol.\<close>

datatype vtype =
    Tag string
  | TextSym
  | FragmentSym
  | ComponentObj nat
  | FunctionType nat
  | OtherSym nat

text \<open>Platform nodes handed out by the adapter: elements and text nodes.\<close>

datatype pnode = PElement nat | PText nat

type_synonym jsprops = "(string \<times> jsval) list"

datatype vnode =
  VNode (vtype: vtype) (props: "jsprops option") (children: vchildren)
        (shapeFlag: "32 word") (el: "pnode option") (key: jsval) (component: "nat option")
and vchildren = CNull | CText string | CArray "vnode list"

definition ELEMENT :: "32 word" where "ELEMENT = 1"
definition STATEFUL_COMPONENT :: "32 word" where "STATEFUL_COMPONENT = push_bit 1 1"
definition TEXT_CHILDREN :: "32 word" where "TEXT_CHILDREN = push_bit 2 1"
definition ARRAY_CHILDREN :: "32 word" where "ARRAY_CHILDREN = push_bit 3 1"
definition SLOTS_CHILDREN :: "32 word" where "SLOTS_CHILDREN = push_bit 4 1"

text \<open>\<open>getShapeFlag\<close>: \<open>typeof type === 'string'\<close> gives ELEMENT,
  \<open>typeof type === 'object'\<close> gives STATEFUL_COMPONENT, anything else 0.\<close>

fun getShapeFlag :: "vtype \<Rightarrow> 32 word" where
  "getShapeFlag (Tag _) = ELEMENT"
| "getShapeFlag (ComponentObj _) = STATEFUL_COMPONENT"
| "getShapeFlag _ = 0"

text \<open>\<open>props?.key\<close>: \<open>undefined\<close> when props is null or undefined, or has no such
  property.\<close>

definition props_key :: "jsprops option \<Rightarrow> jsval" where
  "props_key p = (case p of None \<Rightarrow> VUndef
                  | Some ps \<Rightarrow> (case map_of ps ''key'' of None \<Rightarrow> VUndef | Some v \<Rightarrow> v))"

text \<open>\<open>a || null\<close>.\<close>

definition or_null :: "jsval \<Rightarrow> jsval" where
  "or_null v = (if truthy v then v else VNull)"

text \<open>\<open>children || null\<close>: the empty string is falsy, an array (even an empty one)
  is truthy.\<close>

fun children_or_null :: "vchildren \<Rightarrow> vchildren" where
  "children_or_null (CText s) = (if s = [] then CNull else CText s)"
| "children_or_null c = c"

text \<open>\<open>createVNode(type, props, children)\<close>. The flag for the children is chosen
  on the argument \<open>children\<close>, not on the stored field.\<close>

definition createVNode :: "vtype \<Rightarrow> jsprops option \<Rightarrow> vchildren \<Rightarrow> vnode" where
  "createVNode t p c =
     VNode t p (children_or_null c)
       (case c of
          CText _ \<Rightarrow> getShapeFlag t OR TEXT_CHILDREN
        | CArray _ \<Rightarrow> getShapeFlag t OR ARRAY_CHILDREN
        | CNull \<Rightarrow> getShapeFlag t)
       None (or_null (props_key p)) None"

definition createTextVNode :: "string \<Rightarrow> vnode" where
  "createTextVNode text = createVNode TextSym None (CText text)"

text \<open>\<open>isSameVNodeType\<close>: \<open>n1.type === n2.type && n1.key === n2.key\<close>.\<close>

definition isSameVNodeType :: "vnode \<Rightarrow> vnode \<Rightarrow> bool" where
  "isSameVNodeType n1 n2 = (vtype n1 = vtype n2 \<and> strict_eq (key n1) (key n2))"

section \<open>The renderer (runtime-core/renderer.ts)\<close>

text \<open>The calls made on the platform adapter (RendererOptions), in order, with their
  arguments; \<open>createElement\<close> and \<open>createText\<close> also record the node they return.
  The component runtime is an external collaborator of the renderer: mounting, updating
  and unmounting a component are recorded as one event each.\<close>

datatype op =
    CreateElement vtype pnode
  | CreateText vchildren pnode
  | SetText "pnode option" vchildren
  | SetElementText pnode vchildren
  | Insert "pnode option" pnode "pnode option"
  | Remove "pnode option"
  | PatchProp pnode string jsval jsval
  | MountComponent vtype nat pnode "pnode option"
  | UpdateComponent nat
  | UnmountComponent nat

record dom =
  ops :: "op list"
  nextNode :: nat

datatype rerror = RTypeError

datatype 'a rres = Timeout | Failed rerror dom | Done 'a dom

definition rbind :: "'a rres \<Rightarrow> ('a \<Rightarrow> dom \<Rightarrow> 'b rres) \<Rightarrow> 'b rres" where
  "rbind r f = (case r of Timeout \<Rightarrow> Timeout | Failed e d \<Rightarrow> Failed e d | Done x d \<Rightarrow> f x d)"

type_synonym patch_fn = "vnode option \<Rightarrow> vnode \<Rightarrow> pnode \<Rightarrow> pnode option \<Rightarrow> dom \<Rightarrow> vnode rres"

definition emit :: "op \<Rightarrow> dom \<Rightarrow> dom" where
  "emit x d = d\<lparr>ops := ops d @ [x]\<rparr>"

definition set_el :: "pnode option \<Rightarrow> vnode \<Rightarrow> vnode" where
  "set_el e n = VNode (vtype n) (props n) (children n) (shapeFlag n) e (key n) (component n)"

definition set_children :: "vchildren \<Rightarrow> vnode \<Rightarrow> vnode" where
  "set_children c n = VNode (vtype n) (props n) c (shapeFlag n) (el n) (key n) (component n)"

definition set_component :: "nat option \<Rightarrow> vnode \<Rightarrow> vnode" where
  "set_component c n = VNode (vtype n) (props n) (children n) (shapeFlag n) (el n) (key n) c"

definition has_flag :: "vnode \<Rightarrow> 32 word \<Rightarrow> bool" where
  "has_flag n f = (shapeFlag n AND f \<noteq> 0)"

text \<open>\<open>c2 !== c1\<close> on children: strings by value; two arrays are compared by value here
  (the source compares references).\<close>

definition children_differ :: "vchildren \<Rightarrow> vchildren \<Rightarrow> bool" where
  "children_differ c2 c1 = (c2 \<noteq> c1)"

text \<open>\<open>unmountComponent\<close> and \<open>unmount\<close>.\<close>

definition unmountComponent :: "vnode \<Rightarrow> dom \<Rightarrow> dom" where
  "unmountComponent vnode d =
     (case component vnode of Some inst \<Rightarrow> emit (UnmountComponent inst) d | None \<Rightarrow> d)"

definition unmount :: "vnode \<Rightarrow> dom \<Rightarrow> dom" where
  "unmount vnode d =
     (if has_flag vnode STATEFUL_COMPONENT then unmountComponent vnode d
      else emit (Remove (el vnode)) d)"

text \<open>\<open>unmountChildren\<close>: \<open>children.length\<close> of \<open>null\<close> is a TypeError; the characters
  of a string have neither flags nor \<open>el\<close>.\<close>

definition unmountChildren :: "vchildren \<Rightarrow> dom \<Rightarrow> unit rres" where
  "unmountChildren c d =
     (case c of
        CNull \<Rightarrow> Failed RTypeError d
      | CText s \<Rightarrow> Done () (foldl (\<lambda>d _. emit (Remove None) d) d s)
      | CArray xs \<Rightarrow> Done () (foldl (\<lambda>d x. unmount x d) d xs))"

text \<open>\<open>processText\<close>.\<close>

definition processText :: "vnode option \<Rightarrow> vnode \<Rightarrow> pnode \<Rightarrow> pnode option \<Rightarrow> dom \<Rightarrow> vnode rres" where
  "processText n1 n2 container anchor d =
     (case n1 of
        None \<Rightarrow>
          (let node = PText (nextNode d);
               d1 = emit (CreateText (children n2) node) (d\<lparr>nextNode := Suc (nextNode d)\<rparr>)
           in Done (set_el (Some node) n2) (emit (Insert (Some node) container anchor) d1))
      | Some o1 \<Rightarrow>
          (let n2' = set_el (el o1) n2
           in if children_differ (children n2) (children o1)
              then Done n2' (emit (SetText (el o1) (children n2)) d)
              else Done n2' d))"

text \<open>\<open>mountChildren\<close>: a \<open>for\<close> loop over the array, in order.\<close>

fun mount_each :: "patch_fn \<Rightarrow> vnode list \<Rightarrow> pnode \<Rightarrow> pnode option \<Rightarrow> dom \<Rightarrow> vnode list rres" where
  "mount_each p [] container anchor d = Done [] d"
| "mount_each p (x # xs) container anchor d =
     rbind (p None x container anchor d) (\<lambda>x' d1.
       rbind (mount_each p xs container anchor d1) (\<lambda>xs' d2. Done (x' # xs') d2))"

definition mountChildren :: "patch_fn \<Rightarrow> vchildren \<Rightarrow> pnode \<Rightarrow> pnode option \<Rightarrow> dom \<Rightarrow> vchildren rres" where
  "mountChildren p c container anchor d =
     (case c of
        CNull \<Rightarrow> Failed RTypeError d
      | CText s \<Rightarrow> Done (CText s) d
      | CArray xs \<Rightarrow> rbind (mount_each p xs container anchor d) (\<lambda>xs' d1. Done (CArray xs') d1))"

text \<open>\<open>patchProps\<close>: first the keys of the new props whose value differs, then the keys of
  the old props that the new props lack.\<close>

definition prop_value :: "jsprops \<Rightarrow> string \<Rightarrow> jsval" where
  "prop_value ps k = (case map_of ps k of None \<Rightarrow> VUndef | Some v \<Rightarrow> v)"

definition patchProps :: "pnode \<Rightarrow> jsprops \<Rightarrow> jsprops \<Rightarrow> dom \<Rightarrow> dom" where
  "patchProps e oldProps newProps d =
     (let d1 = foldl (\<lambda>d k.
                 let prev = prop_value oldProps k; next = prop_value newProps k
                 in if \<not> strict_eq prev next then emit (PatchProp e k prev next) d else d)
               d (remdups (map fst newProps))
      in foldl (\<lambda>d k.
            if map_of newProps k = None then emit (PatchProp e k (prop_value oldProps k) VNull) d else d)
          d1 (remdups (map fst oldProps)))"

text \<open>The two \<open>while\<close> loops of \<open>patchKeyedChildren\<close>: from the start while the nodes at
  \<open>i\<close> are the same type, then from the end.\<close>

function sync_start ::
  "patch_fn \<Rightarrow> vnode list \<Rightarrow> vnode list \<Rightarrow> pnode \<Rightarrow> pnode option \<Rightarrow> int \<Rightarrow> int \<Rightarrow> int \<Rightarrow> dom
     \<Rightarrow> (vnode list \<times> int) rres" where
  "sync_start p c1 c2 container anchor i e1 e2 d =
     (if i \<le> e1 \<and> i \<le> e2
      then (let n1 = c1 ! nat i; n2 = c2 ! nat i
            in if isSameVNodeType n1 n2
               then rbind (p (Some n1) n2 container anchor d) (\<lambda>n2' d1.
                      sync_start p c1 (c2[nat i := n2']) container anchor (i + 1) e1 e2 d1)
               else Done (c2, i) d)
      else Done (c2, i) d)"
  by pat_completeness auto
termination
  by (relation "measure (\<lambda>(p, c1, c2, container, anchor, i, e1, e2, d). nat (e1 + 1 - i))") auto

function sync_end ::
  "patch_fn \<Rightarrow> vnode list \<Rightarrow> vnode list \<Rightarrow> pnode \<Rightarrow> pnode option \<Rightarrow> int \<Rightarrow> int \<Rightarrow> int \<Rightarrow> dom
     \<Rightarrow> (vnode list \<times> int \<times> int) rres" where
  "sync_end p c1 c2 container anchor i e1 e2 d =
     (if i \<le> e1 \<and> i \<le> e2
      then (let n1 = c1 ! nat e1; n2 = c2 ! nat e2
            in if isSameVNodeType n1 n2
               then rbind (p (Some n1) n2 container anchor d) (\<lambda>n2' d1.
                      sync_end p c1 (c2[nat e2 := n2']) container anchor i (e1 - 1) (e2 - 1) d1)
               else Done (c2, e1, e2) d)
      else Done (c2, e1, e2) d)"
  by pat_completeness auto
termination
  by (relation "measure (\<lambda>(p, c1, c2, container, anchor, i, e1, e2, d). nat (e1 + 1 - i))") auto

text \<open>The loops over an index range: \<open>patch(null, c2[j], ...)\<close> for \<open>j\<close> from \<open>i\<close> to
  \<open>e2\<close>, and \<open>unmount(c1[j])\<close> for \<open>j\<close> from \<open>i\<close> to \<open>e1\<close>.\<close>

fun mount_range :: "patch_fn \<Rightarrow> vnode list \<Rightarrow> nat list \<Rightarrow> pnode \<Rightarrow> pnode option \<Rightarrow> dom \<Rightarrow> vnode list rres" where
  "mount_range p c2 [] container anchor d = Done c2 d"
| "mount_range p c2 (j # js) container anchor d =
     rbind (p None (c2 ! j) container anchor d) (\<lambda>n2' d1.
       mount_range p (c2[j := n2']) js container anchor d1)"

definition index_range :: "int \<Rightarrow> int \<Rightarrow> nat list" where
  "index_range i e = [nat i ..< nat (e + 1)]"

definition unmount_range :: "vnode list \<Rightarrow> nat list \<Rightarrow> dom \<Rightarrow> dom" where
  "unmount_range c1 js d = foldl (\<lambda>d j. unmount (c1 ! j) d) d js"

text \<open>\<open>patchKeyedChildren\<close>.\<close>

definition patchKeyedChildren ::
  "patch_fn \<Rightarrow> vnode list \<Rightarrow> vnode list \<Rightarrow> pnode \<Rightarrow> pnode option \<Rightarrow> dom \<Rightarrow> vnode list rres" where
  "patchKeyedChildren p c1 c2 container anchor d =
     (let l2 = int (length c2); e1 = int (length c1) - 1; e2 = l2 - 1
      in rbind (sync_start p c1 c2 container anchor 0 e1 e2 d) (\<lambda>(c2a, i) d1.
         rbind (sync_end p c1 c2a container anchor i e1 e2 d1) (\<lambda>(c2b, e1', e2') d2.
           if i > e1'
           then (if i \<le> e2'
                 then (let nextPos = e2' + 1;
                           anchor' = (if nextPos < l2 then el (c2b ! nat nextPos) else None)
                       in mount_range p c2b (index_range i e2') container anchor' d2)
                 else Done c2b d2)
           else if i > e2'
           then Done c2b (unmount_range c1 (index_range i e1') d2)
           else mount_range p c2b (index_range i e2') container anchor
                  (unmount_range c1 (index_range i e1') d2))))"

text \<open>\<open>patchChildren\<close>.\<close>

definition patchChildren ::
  "patch_fn \<Rightarrow> vnode \<Rightarrow> vnode \<Rightarrow> pnode \<Rightarrow> pnode option \<Rightarrow> dom \<Rightarrow> vnode rres" where
  "patchChildren p n1 n2 container anchor d =
     (let c1 = children n1; c2 = children n2
      in if has_flag n2 TEXT_CHILDREN
         then rbind (if has_flag n1 ARRAY_CHILDREN then unmountChildren c1 d else Done () d) (\<lambda>_ d1.
                Done n2 (if children_differ c2 c1 then emit (SetElementText container c2) d1 else d1))
         else if has_flag n1 ARRAY_CHILDREN
         then (if has_flag n2 ARRAY_CHILDREN
               then (case (c1, c2) of
                       (CArray xs, CArray ys) \<Rightarrow>
                         rbind (patchKeyedChildren p xs ys container anchor d) (\<lambda>ys' d1.
                           Done (set_children (CArray ys') n2) d1)
                     | _ \<Rightarrow> Failed RTypeError d)
               else rbind (unmountChildren c1 d) (\<lambda>_ d1. Done n2 d1))
         else (let d1 = (if has_flag n1 TEXT_CHILDREN then emit (SetElementText container (CText [])) d else d)
               in if has_flag n2 ARRAY_CHILDREN
                  then rbind (mountChildren p c2 container anchor d1) (\<lambda>c2' d2.
                         Done (set_children c2' n2) d2)
                  else Done n2 d1))"

text \<open>\<open>processFragment\<close>, \<open>mountElement\<close>, \<open>patchElement\<close>, \<open>processElement\<close>.\<close>

definition processFragment ::
  "patch_fn \<Rightarrow> vnode option \<Rightarrow> vnode \<Rightarrow> pnode \<Rightarrow> pnode option \<Rightarrow> dom \<Rightarrow> vnode rres" where
  "processFragment p n1 n2 container anchor d =
     (case n1 of
        None \<Rightarrow> rbind (mountChildren p (children n2) container anchor d) (\<lambda>c d1.
                  Done (set_children c n2) d1)
      | Some o1 \<Rightarrow> patchChildren p o1 n2 container anchor d)"

definition mountElement :: "patch_fn \<Rightarrow> vnode \<Rightarrow> pnode \<Rightarrow> pnode option \<Rightarrow> dom \<Rightarrow> vnode rres" where
  "mountElement p vnode container anchor d =
     (let e = PElement (nextNode d);
          d1 = emit (CreateElement (vtype vnode) e) (d\<lparr>nextNode := Suc (nextNode d)\<rparr>);
          v1 = set_el (Some e) vnode
      in rbind (if has_flag vnode TEXT_CHILDREN then Done v1 (emit (SetElementText e (children vnode)) d1)
                else if has_flag vnode ARRAY_CHILDREN
                then rbind (mountChildren p (children vnode) e None d1) (\<lambda>c d2. Done (set_children c v1) d2)
                else Done v1 d1) (\<lambda>v2 d3.
           let d4 = (case props vnode of
                       None \<Rightarrow> d3
                     | Some ps \<Rightarrow> foldl (\<lambda>d k. emit (PatchProp e k VNull (prop_value ps k)) d) d3
                                   (remdups (map fst ps)))
           in Done v2 (emit (Insert (Some e) container anchor) d4)))"

definition patchElement :: "patch_fn \<Rightarrow> vnode \<Rightarrow> vnode \<Rightarrow> dom \<Rightarrow> vnode rres" where
  "patchElement p n1 n2 d =
     (let n2' = set_el (el n1) n2
      in case el n1 of
           Some (PElement i) \<Rightarrow>
             (let oldProps = (case props n1 of None \<Rightarrow> [] | Some ps \<Rightarrow> ps);
                  newProps = (case props n2 of None \<Rightarrow> [] | Some ps \<Rightarrow> ps);
                  d1 = patchProps (PElement i) oldProps newProps d
              in patchChildren p n1 n2' (PElement i) None d1)
         | _ \<Rightarrow> Done n2' d)"

definition processElement ::
  "patch_fn \<Rightarrow> vnode option \<Rightarrow> vnode \<Rightarrow> pnode \<Rightarrow> pnode option \<Rightarrow> dom \<Rightarrow> vnode rres" where
  "processElement p n1 n2 container anchor d =
     (case n1 of None \<Rightarrow> mountElement p n2 container anchor d | Some o1 \<Rightarrow> patchElement p o1 n2 d)"

text \<open>\<open>processComponent\<close>: \<open>mountComponent\<close> binds a new instance; \<open>updateComponent\<close>
  takes over the old node's instance and calls its \<open>update\<close> (a TypeError without one).\<close>

definition processComponent ::
  "vnode option \<Rightarrow> vnode \<Rightarrow> pnode \<Rightarrow> pnode option \<Rightarrow> dom \<Rightarrow> vnode rres" where
  "processComponent n1 n2 container anchor d =
     (case n1 of
        None \<Rightarrow>
          (let inst = nextNode d
           in Done (set_component (Some inst) n2)
                (emit (MountComponent (vtype n2) inst container anchor) (d\<lparr>nextNode := Suc inst\<rparr>)))
      | Some o1 \<Rightarrow>
          (case component o1 of
             None \<Rightarrow> Failed RTypeError d
           | Some inst \<Rightarrow> Done (set_component (Some inst) n2) (emit (UpdateComponent inst) d)))"

text \<open>\<open>patch\<close>, with the recursive calls through \<open>p\<close>; and \<open>patch\<close> itself, by the depth
  of the tree.\<close>

definition patch_body :: "patch_fn \<Rightarrow> patch_fn" where
  "patch_body p n1 n2 container anchor d =
     (let unmounted = (case n1 of Some o1 \<Rightarrow> \<not> isSameVNodeType o1 n2 | None \<Rightarrow> False);
          d0 = (case n1 of Some o1 \<Rightarrow> if unmounted then unmount o1 d else d | None \<Rightarrow> d);
          n1' = (if unmounted then None else n1)
      in case vtype n2 of
           TextSym \<Rightarrow> processText n1' n2 container anchor d0
         | FragmentSym \<Rightarrow> processFragment p n1' n2 container anchor d0
         | _ \<Rightarrow>
             if has_flag n2 ELEMENT then processElement p n1' n2 container anchor d0
             else if has_flag n2 STATEFUL_COMPONENT then processComponent n1' n2 container anchor d0
             else Done n2 d0)"

primrec patch :: "nat \<Rightarrow> patch_fn" where
  "patch 0 = (\<lambda>n1 n2 container anchor d. Timeout)"
| "patch (Suc n) = patch_body (patch n)"

declare sync_start.simps [simp del] sync_end.simps [simp del]

text \<open>The depth of a virtual node tree, and what \<open>patch\<close> with fuel for that depth
  guarantees: a result (or an error, never \<open>Timeout\<close>) on every node of depth at most \<open>k\<close>,
  and a patched node that is no deeper.\<close>

primrec vdepth :: "vnode \<Rightarrow> nat" and cdepth :: "vchildren \<Rightarrow> nat" and ldepth :: "vnode list \<Rightarrow> nat" where
  "vdepth (VNode t p c f e k m) = Suc (cdepth c)"
| "cdepth CNull = 0"
| "cdepth (CText s) = 0"
| "cdepth (CArray xs) = ldepth xs"
| "ldepth [] = 0"
| "ldepth (x # xs) = max (vdepth x) (ldepth xs)"

definition returns_below :: "patch_fn \<Rightarrow> nat \<Rightarrow> bool" where
  "returns_below p k \<longleftrightarrow>
     (\<forall>n1 n2 container anchor d. vdepth n2 \<le> k \<longrightarrow>
        p n1 n2 container anchor d \<noteq> Timeout \<and>
        (\<forall>v d'. p n1 n2 container anchor d = Done v d' \<longrightarrow> vdepth v \<le> k))"

section \<open>Lifecycle hooks (runtime-core/apiLifecycle.ts)\<close>

text \<open>\<open>enum LifecycleHooks\<close> and its string values.\<close>

datatype LifecycleHooks =
    BEFORE_CREATE | CREATED | BEFORE_MOUNT | MOUNTED
  | BEFORE_UPDATE | UPDATED | BEFORE_UNMOUNT | UNMOUNTED

fun hook_key :: "LifecycleHooks \<Rightarrow> string" where
  "hook_key BEFORE_CREATE = ''bc''"
| "hook_key CREATED = ''c''"
| "hook_key BEFORE_MOUNT = ''bm''"
| "hook_key MOUNTED = ''m''"
| "hook_key BEFORE_UPDATE = ''bu''"
| "hook_key UPDATED = ''u''"
| "hook_key BEFORE_UNMOUNT = ''bum''"
| "hook_key UNMOUNTED = ''um''"

text \<open>What a hook can touch: the console and the user's own data. A function of type
  \<open>LifecycleHook\<close> returns or throws, leaving the world as it was at that point.\<close>

datatype console_entry = ConsoleError string jsval | ConsoleWarn string

record 'u world =
  console :: "console_entry list"
  user :: 'u

type_synonym 'u hook = "'u world \<Rightarrow> jsval option \<times> 'u world"

text \<open>The hook lists of a component instance (\<open>instance[type]\<close>, absent until the first
  registration) and its \<open>isMounted\<close> flag.\<close>

record 'u comp_instance =
  hook_lists :: "LifecycleHooks \<Rightarrow> 'u hook list option"
  isMounted :: bool

record 'u cstate =
  instances :: "nat \<Rightarrow> 'u comp_instance"
  currentInstance :: "nat option"
  cworld :: "'u world"

text \<open>\<open>createComponentInstance\<close>, as far as the hooks are concerned.\<close>

definition createComponentInstance :: "'u comp_instance" where
  "createComponentInstance = \<lparr>hook_lists = (\<lambda>_. None), isMounted = False\<rparr>"

text \<open>\<open>wrappedHook\<close> of \<open>injectHook\<close>: \<open>try { hook() } catch (err) { console.error(...) }\<close>.\<close>

definition wrappedHook :: "LifecycleHooks \<Rightarrow> 'u hook \<Rightarrow> 'u hook" where
  "wrappedHook t hook w =
     (case hook w of
        (None, w') \<Rightarrow> (None, w')
      | (Some err, w') \<Rightarrow>
          (None, w'\<lparr>console := console w' @ [ConsoleError (''Error in '' @ hook_key t @ '' hook:'') err]\<rparr>))"

text \<open>\<open>injectHook(type, hook, target)\<close>.\<close>

definition injectHook :: "LifecycleHooks \<Rightarrow> 'u hook \<Rightarrow> nat option \<Rightarrow> 'u cstate \<Rightarrow> 'u cstate" where
  "injectHook t hook target cs =
     (case (case target of Some i \<Rightarrow> Some i | None \<Rightarrow> currentInstance cs) of
        Some i \<Rightarrow>
          (let inst = instances cs i;
               hooks = (case hook_lists inst t of Some hs \<Rightarrow> hs | None \<Rightarrow> [])
           in cs\<lparr>instances := (instances cs)
                  (i := inst\<lparr>hook_lists := (hook_lists inst)(t \<mapsto> hooks @ [wrappedHook t hook])\<rparr>)\<rparr>)
      | None \<Rightarrow>
          cs\<lparr>cworld := (cworld cs)\<lparr>console := console (cworld cs) @
                 [ConsoleWarn (hook_key t @ '' hook can only be called during setup() or in a component context.'')]\<rparr>\<rparr>)"

text \<open>\<open>hooks.forEach(hook => hook())\<close>: in order, left by the first exception.\<close>

fun run_hooks :: "'u hook list \<Rightarrow> 'u world \<Rightarrow> jsval option \<times> 'u world" where
  "run_hooks [] w = (None, w)"
| "run_hooks (h # hs) w =
     (case h w of (None, w') \<Rightarrow> run_hooks hs w' | (Some err, w') \<Rightarrow> (Some err, w'))"

text \<open>\<open>callHook(instance, type)\<close>.\<close>

definition callHook :: "'u comp_instance \<Rightarrow> LifecycleHooks \<Rightarrow> 'u hook" where
  "callHook inst t w =
     (case hook_lists inst t of None \<Rightarrow> (None, w) | Some hooks \<Rightarrow> run_hooks hooks w)"

text \<open>Sequencing of steps that may throw.\<close>

definition and_then :: "'u hook \<Rightarrow> 'u hook \<Rightarrow> 'u hook" where
  "and_then f g w = (case f w of (None, w') \<Rightarrow> g w' | (Some err, w') \<Rightarrow> (Some err, w'))"

text \<open>\<open>componentUpdateFn\<close> of \<open>setupRenderEffect\<close> (renderer.ts): the hooks around
  \<open>render\<close> and \<open>patch\<close>, which are given here as one step that may throw. The result is
  the completion, the new \<open>isMounted\<close> and the world.\<close>

definition componentUpdateFn ::
  "'u comp_instance \<Rightarrow> 'u hook \<Rightarrow> 'u world \<Rightarrow> jsval option \<times> bool \<times> 'u world" where
  "componentUpdateFn inst render_and_patch w =
     (if \<not> isMounted inst
      then (case and_then (callHook inst BEFORE_MOUNT) render_and_patch w of
              (Some err, w1) \<Rightarrow> (Some err, False, w1)
            | (None, w1) \<Rightarrow> (case callHook inst MOUNTED w1 of (r, w2) \<Rightarrow> (r, True, w2)))
      else (case and_then (callHook inst BEFORE_UPDATE)
                   (and_then render_and_patch (callHook inst UPDATED)) w of
              (r, w1) \<Rightarrow> (r, True, w1)))"

text \<open>\<open>unmountComponent\<close> (renderer.ts): the hooks around \<open>unmount(instance.subTree)\<close>.\<close>

definition unmountComponentHooks :: "'u comp_instance \<Rightarrow> 'u hook \<Rightarrow> 'u hook" where
  "unmountComponentHooks inst unmount_subtree =
     and_then (callHook inst BEFORE_UNMOUNT) (and_then unmount_subtree (callHook inst UNMOUNTED))"

text \<open>Every stored hook is one that \<open>injectHook\<close> wrapped.\<close>

definition hooks_injected :: "'u comp_instance \<Rightarrow> bool" where
  "hooks_injected inst =
     (\<forall>t hs. hook_lists inst t = Some hs \<longrightarrow> (\<forall>h \<in> set hs. \<exists>g. h = wrappedHook t g))"

text \<open>The world after each hook of the list has run, whatever it threw.\<close>

definition after_all :: "'u hook list \<Rightarrow> 'u world \<Rightarrow> 'u world" where
  "after_all hs w = foldl (\<lambda>w h. snd (h w)) w hs"

definition hooks_for :: "'u comp_instance \<Rightarrow> LifecycleHooks \<Rightarrow> 'u hook list" where
  "hooks_for inst t = (case hook_lists inst t of None \<Rightarrow> [] | Some hs \<Rightarrow> hs)"

section \<open>Reactivity state (reactivity/effect.ts, reactive.ts, computed.ts)\<close>

text \<open>
  Covered: \<open>ReactiveEffect\<close>, \<open>effect\<close>, \<open>stop\<close>, \<open>track\<close>, \<open>trigger\<close> (effect.ts);
  \<open>reactive\<close>, \<open>isReactive\<close> and the five traps of its proxy (reactive.ts); the getter of
  \<open>ComputedRefImpl\<close> and the scheduler it installs (computed.ts). Not covered: \<open>readonly\<close>
  proxies, refs (ref.ts) and the setter of a computed. Raw objects have own properties
  only (no prototype chain, no accessors).
\<close>

text \<open>Property keys are strings or symbols; every \<open>Symbol(...)\<close> call makes a new
  symbol, identified here by a number.\<close>

datatype pkey = KStr string | KSym nat

text \<open>The objects used as keys of \<open>targetMap\<close>: raw objects (the targets of reactive
  proxies) and computed refs (\<open>track(this, 'value')\<close>).\<close>

datatype target = TObj nat | TComputed nat

definition IS_REACTIVE :: pkey where
  "IS_REACTIVE = KStr ''__v_isReactive''"

definition VALUE_KEY :: pkey where
  "VALUE_KEY = KStr ''value''"

text \<open>
  The functions handed to \<open>effect\<close> and \<open>computed\<close> are JavaScript closures. They are
  represented by expressions of a small language whose constructs are the operations of
  the reactivity API and of objects; \<open>Op2\<close> applies any pure binary operation.
  \<open>TriggerEffects\<close> is the \<open>forEach\<close> over the snapshot taken by \<open>trigger\<close>, and
  \<open>CallScheduler e\<close> is the call \<open>effect.scheduler(effect)\<close>.
\<close>

datatype expr =
    Lit jsval
  | Seq expr expr
  | Cond expr expr expr
  | Op2 "jsval \<Rightarrow> jsval \<Rightarrow> jsval" expr expr
  | Throw expr
  | PropGet expr pkey
  | PropSet expr pkey expr
  | PropHas pkey expr
  | OwnKeys expr
  | PropDelete expr pkey
  | Reactive expr
  | ComputedValue nat
  | Run nat
  | Stop nat
  | Track target pkey
  | Trigger target pkey
  | TriggerEffects "nat list"
  | CallScheduler nat

text \<open>A scheduler is a user function or the one \<open>ComputedRefImpl\<close> installs.\<close>

datatype sched = SchedFn expr | SchedComputed nat

text \<open>\<open>class ReactiveEffect\<close>. A member of \<open>deps\<close> is a reference to a \<open>Set\<close> stored in
  \<open>targetMap\<close>; the sets are never replaced there, so the reference is the pair of
  target and key under which the set is stored.\<close>

record effect =
  fn :: expr
  deps :: "(target \<times> pkey) list"
  active :: bool
  scheduler :: "sched option"

text \<open>\<open>class ComputedRefImpl\<close>: \<open>_value\<close>, \<open>_dirty\<close>, \<open>_effect\<close>.\<close>

record computed =
  c_value :: jsval
  c_dirty :: bool
  c_effect :: nat

text \<open>Observations, kept in a trace that no operation reads: a call of an effect's
  function, a notification by \<open>trigger\<close> (through \<open>run\<close> or through the scheduler), a
  \<open>track\<close> under an active effect, a \<open>trigger\<close> call, a console warning.\<close>

datatype event =
    EvFn nat
  | EvRun nat
  | EvSched nat
  | EvTrack nat target pkey
  | EvTrigger target pkey
  | EvWarn string

text \<open>The module state: the raw objects (own properties in insertion order),
  \<open>reactiveMap\<close>, the proxies made so far and their targets, \<open>targetMap\<close>, the effect and
  computed objects, \<open>activeEffect\<close> and \<open>effectStack\<close>.\<close>

record rstate =
  heap :: "nat \<Rightarrow> (pkey \<times> jsval) list"
  reactiveMap :: "nat \<rightharpoonup> nat"
  proxyTarget :: "nat \<Rightarrow> nat"
  nextProxy :: nat
  nextSym :: nat
  targetMap :: "target \<rightharpoonup> (pkey \<rightharpoonup> nat list)"
  effects :: "nat \<Rightarrow> effect"
  computeds :: "nat \<Rightarrow> computed"
  activeEffect :: "nat option"
  effectStack :: "nat list"
  trace :: "event list"

datatype exn = TypeError | UserExn jsval

datatype outcome = Ok jsval | Thrown exn

definition log :: "event \<Rightarrow> rstate \<Rightarrow> rstate" where
  "log ev s = s\<lparr>trace := trace s @ [ev]\<rparr>"

definition raw_get :: "rstate \<Rightarrow> nat \<Rightarrow> pkey \<Rightarrow> jsval" where
  "raw_get s ob k = (case map_of (heap s ob) k of None \<Rightarrow> VUndef | Some v \<Rightarrow> v)"

definition raw_has :: "rstate \<Rightarrow> nat \<Rightarrow> pkey \<Rightarrow> bool" where
  "raw_has s ob k = (map_of (heap s ob) k \<noteq> None)"

definition raw_set :: "nat \<Rightarrow> pkey \<Rightarrow> jsval \<Rightarrow> rstate \<Rightarrow> rstate" where
  "raw_set ob k v s = s\<lparr>heap := (heap s)(ob := AList.update k v (heap s ob))\<rparr>"

definition raw_delete :: "nat \<Rightarrow> pkey \<Rightarrow> rstate \<Rightarrow> rstate" where
  "raw_delete ob k s = s\<lparr>heap := (heap s)(ob := AList.delete k (heap s ob))\<rparr>"

subsection \<open>effect.ts: track and cleanupEffect\<close>

definition subscribers :: "rstate \<Rightarrow> target \<Rightarrow> pkey \<Rightarrow> nat list" where
  "subscribers s t k =
     (case targetMap s t of None \<Rightarrow> []
      | Some depsMap \<Rightarrow> (case depsMap k of None \<Rightarrow> [] | Some dep \<Rightarrow> dep))"

text \<open>\<open>track(target, key)\<close>: nothing without an active effect; otherwise the maps and
  the set are created when missing, and the effect is added to the set, and the set to
  the effect's \<open>deps\<close>, unless the set has it already.\<close>

definition track :: "target \<Rightarrow> pkey \<Rightarrow> rstate \<Rightarrow> rstate" where
  "track t k s =
     (case activeEffect s of
        None \<Rightarrow> s
      | Some e \<Rightarrow>
          (let depsMap = (case targetMap s t of None \<Rightarrow> Map.empty | Some dm \<Rightarrow> dm);
               dep = (case depsMap k of None \<Rightarrow> [] | Some d \<Rightarrow> d);
               s1 = log (EvTrack e t k) s
           in if e \<in> set dep
              then s1\<lparr>targetMap := (targetMap s)(t \<mapsto> depsMap(k \<mapsto> dep))\<rparr>
              else s1\<lparr>targetMap := (targetMap s)(t \<mapsto> depsMap(k \<mapsto> dep @ [e])),
                      effects := (effects s)
                        (e := (effects s e)\<lparr>deps := deps (effects s e) @ [(t, k)]\<rparr>)\<rparr>))"

text \<open>\<open>dep.delete(effect)\<close> on the set stored under a target and key.\<close>

definition dep_delete ::
  "nat \<Rightarrow> target \<times> pkey \<Rightarrow> (target \<rightharpoonup> (pkey \<rightharpoonup> nat list)) \<Rightarrow> (target \<rightharpoonup> (pkey \<rightharpoonup> nat list))" where
  "dep_delete e tk tm =
     (case tm (fst tk) of
        None \<Rightarrow> tm
      | Some depsMap \<Rightarrow>
          (case depsMap (snd tk) of
             None \<Rightarrow> tm
           | Some dep \<Rightarrow> tm(fst tk \<mapsto> depsMap(snd tk \<mapsto> removeAll e dep))))"

definition cleanupEffect :: "nat \<Rightarrow> rstate \<Rightarrow> rstate" where
  "cleanupEffect e s =
     s\<lparr>targetMap := foldl (\<lambda>tm tk. dep_delete e tk tm) (targetMap s) (deps (effects s e)),
       effects := (effects s)(e := (effects s e)\<lparr>deps := []\<rparr>)\<rparr>"

text \<open>\<open>stop()\<close>.\<close>

definition stop_effect :: "nat \<Rightarrow> rstate \<Rightarrow> rstate" where
  "stop_effect e s =
     (if active (effects s e)
      then (let s1 = cleanupEffect e s
            in s1\<lparr>effects := (effects s1)(e := (effects s1 e)\<lparr>active := False\<rparr>)\<rparr>)
      else s)"

text \<open>\<open>effectStack[effectStack.length - 1]\<close>, \<open>undefined\<close> on the empty stack.\<close>

definition stack_top :: "nat list \<Rightarrow> nat option" where
  "stack_top st = (if st = [] then None else Some (last st))"

subsection \<open>reactive.ts: reactive and the traps\<close>

text \<open>\<open>isReactive\<close>: \<open>!!(value && value[ReactiveFlags.IS_REACTIVE])\<close>. On a proxy the
  \<open>get\<close> trap answers \<open>true\<close>; on a raw object it is the object's own property.\<close>

definition isReactive :: "jsval \<Rightarrow> rstate \<Rightarrow> bool" where
  "isReactive v s =
     (case v of
        VProxy _ \<Rightarrow> True
      | VObj ob \<Rightarrow> truthy (raw_get s ob IS_REACTIVE)
      | _ \<Rightarrow> False)"

fun js_typeof :: "jsval \<Rightarrow> string" where
  "js_typeof VUndef = ''undefined''"
| "js_typeof VNull = ''object''"
| "js_typeof (VBool _) = ''boolean''"
| "js_typeof (VNum _) = ''number''"
| "js_typeof VNaN = ''number''"
| "js_typeof (VStr _) = ''string''"
| "js_typeof (VObj _) = ''object''"
| "js_typeof (VProxy _) = ''object''"

text \<open>\<open>reactive(target)\<close>: a non-object is returned with a warning, a reactive value
  is returned as it is, a target with a cached proxy gets that proxy, and otherwise a
  new proxy is made and cached.\<close>

definition reactive :: "jsval \<Rightarrow> rstate \<Rightarrow> jsval \<times> rstate" where
  "reactive tgt s =
     (if \<not> isObject tgt
      then (tgt, log (EvWarn (''reactive() can only be called on objects, not '' @ js_typeof tgt)) s)
      else if isReactive tgt s then (tgt, s)
      else (case tgt of
              VObj ob \<Rightarrow>
                (case reactiveMap s ob of
                   Some p \<Rightarrow> (VProxy p, s)
                 | None \<Rightarrow>
                     (let p = nextProxy s
                      in (VProxy p,
                          s\<lparr>proxyTarget := (proxyTarget s)(p := ob),
                            reactiveMap := (reactiveMap s)(ob \<mapsto> p),
                            nextProxy := Suc p\<rparr>)))
            | _ \<Rightarrow> (tgt, s)))"

text \<open>The \<open>get\<close> trap of the proxy \<open>p\<close>.\<close>

definition proxy_get :: "nat \<Rightarrow> pkey \<Rightarrow> rstate \<Rightarrow> jsval \<times> rstate" where
  "proxy_get p k s =
     (if k = IS_REACTIVE then (VBool True, s)
      else (let ob = proxyTarget s p;
                result = raw_get s ob k;
                s1 = track (TObj ob) k s
            in if isObject result then reactive result s1 else (result, s1)))"

text \<open>The \<open>has\<close> trap.\<close>

definition proxy_has :: "nat \<Rightarrow> pkey \<Rightarrow> rstate \<Rightarrow> jsval \<times> rstate" where
  "proxy_has p k s =
     (let ob = proxyTarget s p;
          result = raw_has s ob k
      in (VBool result, track (TObj ob) k s))"

text \<open>The \<open>ownKeys\<close> trap: \<open>track(target, Symbol('ownKeys'))\<close> with a symbol made by
  this very call. The result is the number of own keys.\<close>

definition proxy_ownKeys :: "nat \<Rightarrow> rstate \<Rightarrow> jsval \<times> rstate" where
  "proxy_ownKeys p s =
     (let ob = proxyTarget s p;
          sym = KSym (nextSym s);
          s1 = track (TObj ob) sym (s\<lparr>nextSym := Suc (nextSym s)\<rparr>)
      in (VNum (int (length (heap s1 ob))), s1))"

subsection \<open>Evaluation\<close>

text \<open>
  The evaluator takes fuel, since effects can re-run each other for ever: \<open>None\<close> is
  "no result within this fuel". A result is an outcome (a value, or a thrown exception)
  and the state reached; an exception leaves through every construct but the
  \<open>finally\<close> of \<open>run\<close>.
\<close>

type_synonym result = "(outcome \<times> rstate) option"

definition bind_ok :: "result \<Rightarrow> (jsval \<Rightarrow> rstate \<Rightarrow> result) \<Rightarrow> result" where
  "bind_ok r f =
     (case r of
        None \<Rightarrow> None
      | Some (Thrown x, s) \<Rightarrow> Some (Thrown x, s)
      | Some (Ok v, s) \<Rightarrow> f v s)"

text \<open>The \<open>finally\<close> block of \<open>run\<close>: \<open>effectStack.pop()\<close> and
  \<open>activeEffect = effectStack[effectStack.length - 1]\<close>, on every exit.\<close>

definition run_finally :: "rstate \<Rightarrow> rstate" where
  "run_finally s =
     s\<lparr>effectStack := butlast (effectStack s),
       activeEffect := stack_top (butlast (effectStack s))\<rparr>"

definition finally_pop :: "result \<Rightarrow> result" where
  "finally_pop r = (case r of None \<Rightarrow> None | Some (out, s) \<Rightarrow> Some (out, run_finally s))"

text \<open>The start of an active \<open>run\<close>: push, set \<open>activeEffect\<close>, \<open>cleanupEffect\<close>.\<close>

definition run_enter :: "nat \<Rightarrow> rstate \<Rightarrow> rstate" where
  "run_enter e s =
     cleanupEffect e (s\<lparr>effectStack := effectStack s @ [e], activeEffect := Some e\<rparr>)"

definition set_computed :: "nat \<Rightarrow> computed \<Rightarrow> rstate \<Rightarrow> rstate" where
  "set_computed c r s = s\<lparr>computeds := (computeds s)(c := r)\<rparr>"

fun eval :: "nat \<Rightarrow> expr \<Rightarrow> rstate \<Rightarrow> result" where
  "eval 0 e s = None"
| "eval (Suc n) (Lit v) s = Some (Ok v, s)"
| "eval (Suc n) (Seq a b) s = bind_ok (eval n a s) (\<lambda>_ s1. eval n b s1)"
| "eval (Suc n) (Cond c a b) s =
     bind_ok (eval n c s) (\<lambda>v s1. if truthy v then eval n a s1 else eval n b s1)"
| "eval (Suc n) (Op2 f a b) s =
     bind_ok (eval n a s) (\<lambda>x s1. bind_ok (eval n b s1) (\<lambda>y s2. Some (Ok (f x y), s2)))"
| "eval (Suc n) (Throw a) s =
     bind_ok (eval n a s) (\<lambda>v s1. Some (Thrown (UserExn v), s1))"
| "eval (Suc n) (PropGet a k) s =
     bind_ok (eval n a s) (\<lambda>r s1.
       case r of
         VProxy p \<Rightarrow> (case proxy_get p k s1 of (v, s2) \<Rightarrow> Some (Ok v, s2))
       | VObj ob \<Rightarrow> Some (Ok (raw_get s1 ob k), s1)
       | VUndef \<Rightarrow> Some (Thrown TypeError, s1)
       | VNull \<Rightarrow> Some (Thrown TypeError, s1)
       | VStr str \<Rightarrow> Some (Ok (if k = KStr ''length'' then VNum (int (length str)) else VUndef), s1)
       | _ \<Rightarrow> Some (Ok VUndef, s1))"
| "eval (Suc n) (PropSet a k b) s =
     bind_ok (eval n a s) (\<lambda>r s1. bind_ok (eval n b s1) (\<lambda>v s2.
       case r of
         VProxy p \<Rightarrow>
           (let ob = proxyTarget s2 p;
                oldValue = raw_get s2 ob k;
                s3 = raw_set ob k v s2
            in if \<not> strict_eq oldValue v
               then bind_ok (eval n (Trigger (TObj ob) k) s3) (\<lambda>_ s4. Some (Ok v, s4))
               else Some (Ok v, s3))
       | VObj ob \<Rightarrow> Some (Ok v, raw_set ob k v s2)
       | _ \<Rightarrow> Some (Thrown TypeError, s2)))"
| "eval (Suc n) (PropHas k a) s =
     bind_ok (eval n a s) (\<lambda>r s1.
       case r of
         VProxy p \<Rightarrow> (case proxy_has p k s1 of (v, s2) \<Rightarrow> Some (Ok v, s2))
       | VObj ob \<Rightarrow> Some (Ok (VBool (raw_has s1 ob k)), s1)
       | _ \<Rightarrow> Some (Thrown TypeError, s1))"
| "eval (Suc n) (OwnKeys a) s =
     bind_ok (eval n a s) (\<lambda>r s1.
       case r of
         VProxy p \<Rightarrow> (case proxy_ownKeys p s1 of (v, s2) \<Rightarrow> Some (Ok v, s2))
       | VObj ob \<Rightarrow> Some (Ok (VNum (int (length (heap s1 ob)))), s1)
       | _ \<Rightarrow> Some (Thrown TypeError, s1))"
| "eval (Suc n) (PropDelete a k) s =
     bind_ok (eval n a s) (\<lambda>r s1.
       case r of
         VProxy p \<Rightarrow>
           (let ob = proxyTarget s1 p;
                hadKey = raw_has s1 ob k;
                s2 = raw_delete ob k s1
            in if hadKey
               then bind_ok (eval n (Trigger (TObj ob) k) s2) (\<lambda>_ s3. Some (Ok (VBool True), s3))
               else Some (Ok (VBool True), s2))
       | VObj ob \<Rightarrow> Some (Ok (VBool True), raw_delete ob k s1)
       | VUndef \<Rightarrow> Some (Thrown TypeError, s1)
       | VNull \<Rightarrow> Some (Thrown TypeError, s1)
       | _ \<Rightarrow> Some (Ok (VBool True), s1))"
| "eval (Suc n) (Reactive a) s =
     bind_ok (eval n a s) (\<lambda>v s1. case reactive v s1 of (r, s2) \<Rightarrow> Some (Ok r, s2))"
| "eval (Suc n) (ComputedValue c) s =
     (let s1 = track (TComputed c) VALUE_KEY s
      in if c_dirty (computeds s1 c)
         then bind_ok (eval n (Run (c_effect (computeds s1 c))) s1) (\<lambda>v s2.
                Some (Ok v, set_computed c ((computeds s2 c)\<lparr>c_value := v, c_dirty := False\<rparr>) s2))
         else Some (Ok (c_value (computeds s1 c)), s1))"
| "eval (Suc n) (Run e) s =
     (if \<not> active (effects s e)
      then eval n (fn (effects s e)) (log (EvFn e) s)
      else finally_pop (eval n (fn (effects s e)) (log (EvFn e) (run_enter e s))))"
| "eval (Suc n) (Stop e) s = Some (Ok VUndef, stop_effect e s)"
| "eval (Suc n) (Track t k) s = Some (Ok VUndef, track t k s)"
| "eval (Suc n) (Trigger t k) s =
     (case targetMap s t of
        None \<Rightarrow> Some (Ok VUndef, log (EvTrigger t k) s)
      | Some depsMap \<Rightarrow>
          (case depsMap k of
             None \<Rightarrow> Some (Ok VUndef, log (EvTrigger t k) s)
           | Some dep \<Rightarrow> eval n (TriggerEffects dep) (log (EvTrigger t k) s)))"
| "eval (Suc n) (TriggerEffects []) s = Some (Ok VUndef, s)"
| "eval (Suc n) (TriggerEffects (e # es)) s =
     bind_ok
       (if Some e \<noteq> activeEffect s
        then (if scheduler (effects s e) \<noteq> None
              then eval n (CallScheduler e) (log (EvSched e) s)
              else eval n (Run e) (log (EvRun e) s))
        else Some (Ok VUndef, s))
       (\<lambda>_ s1. eval n (TriggerEffects es) s1)"
| "eval (Suc n) (CallScheduler e) s =
     (case scheduler (effects s e) of
        None \<Rightarrow> Some (Thrown TypeError, s)
      | Some (SchedFn body) \<Rightarrow> eval n body s
      | Some (SchedComputed c) \<Rightarrow>
          (if \<not> c_dirty (computeds s c)
           then eval n (Trigger (TComputed c) VALUE_KEY)
                  (set_computed c ((computeds s c)\<lparr>c_dirty := True\<rparr>) s)
           else Some (Ok VUndef, s)))"

text \<open>\<open>new ReactiveEffect(fn, options)\<close> and \<open>new ComputedRefImpl(getter)\<close>, and the
  \<open>effect\<close> function: the new effect object \<open>e\<close> is run at once unless \<open>lazy\<close>, and an
  exception of that first run leaves \<open>effect\<close>. The runner that \<open>effect\<close> returns is
  \<open>Run e\<close> in the expression language and no value of \<open>jsval\<close>, so the result value here
  is \<open>undefined\<close>.\<close>

definition mk_effect :: "expr \<Rightarrow> sched option \<Rightarrow> effect" where
  "mk_effect f sch = \<lparr>fn = f, deps = [], active = True, scheduler = sch\<rparr>"

definition mk_computed :: "nat \<Rightarrow> computed" where
  "mk_computed e = \<lparr>c_value = VUndef, c_dirty = True, c_effect = e\<rparr>"

definition new_computed :: "nat \<Rightarrow> nat \<Rightarrow> expr \<Rightarrow> rstate \<Rightarrow> rstate" where
  "new_computed c e getter s =
     s\<lparr>effects := (effects s)(e := mk_effect getter (Some (SchedComputed c))),
       computeds := (computeds s)(c := mk_computed e)\<rparr>"

definition effect_api :: "nat \<Rightarrow> nat \<Rightarrow> expr \<Rightarrow> bool \<Rightarrow> sched option \<Rightarrow> rstate \<Rightarrow> result" where
  "effect_api n e f lazy sch s =
     (let s1 = s\<lparr>effects := (effects s)(e := mk_effect f sch)\<rparr>
      in if \<not> lazy
         then bind_ok (eval n (Run e) s1) (\<lambda>_ s2. Some (Ok VUndef, s2))
         else Some (Ok VUndef, s1))"

text \<open>The state of a freshly loaded module with the given raw objects.\<close>

definition init_state :: "(nat \<Rightarrow> (pkey \<times> jsval) list) \<Rightarrow> rstate" where
  "init_state h =
     \<lparr>heap = h, reactiveMap = Map.empty, proxyTarget = (\<lambda>_. 0), nextProxy = 0, nextSym = 0,
      targetMap = Map.empty,
      effects = (\<lambda>_. mk_effect (Lit VUndef) None),
      computeds = (\<lambda>_. mk_computed 0),
      activeEffect = None, effectStack = [], trace = []\<rparr>"

subsection \<open>Predicates on states and traces\<close>

text \<open>\<open>activeEffect\<close> is the top of \<open>effectStack\<close> (or \<open>undefined\<close> on the empty stack):
  what \<open>run\<close> establishes on entry and restores on exit.\<close>

definition stack_ok :: "rstate \<Rightarrow> bool" where
  "stack_ok s = (activeEffect s = stack_top (effectStack s))"

text \<open>What every evaluation leaves as it found it: the stack, the active effect (when
  it was the top of the stack), the events already in the trace, the function and the
  scheduler of every effect, the effect of every computed, and the proxies made so far.\<close>

definition frame :: "rstate \<Rightarrow> rstate \<Rightarrow> bool" where
  "frame s s' =
     (effectStack s' = effectStack s \<and>
      (stack_ok s \<longrightarrow> activeEffect s' = activeEffect s) \<and>
      (\<exists>evs. trace s' = trace s @ evs) \<and>
      (\<forall>e. fn (effects s' e) = fn (effects s e) \<and>
           scheduler (effects s' e) = scheduler (effects s e)) \<and>
      (\<forall>c. c_effect (computeds s' c) = c_effect (computeds s c)) \<and>
      nextProxy s \<le> nextProxy s' \<and>
      (\<forall>p<nextProxy s. proxyTarget s' p = proxyTarget s p))"

text \<open>Between \<open>s\<close> and \<open>s'\<close> a \<open>trigger\<close> loop notified the effect \<open>c\<close>: it called
  \<open>c.run()\<close> or \<open>c.scheduler(c)\<close>.\<close>

definition notified :: "nat \<Rightarrow> rstate \<Rightarrow> rstate \<Rightarrow> bool" where
  "notified c s s' =
     (\<exists>evs. trace s' = trace s @ evs \<and> (EvRun c \<in> set evs \<or> EvSched c \<in> set evs))"

text \<open>The state a result carries.\<close>

definition state_of :: "result \<Rightarrow> rstate" where
  "state_of r = snd (the r)"

definition outcome_of :: "result \<Rightarrow> outcome option" where
  "outcome_of r = map_option fst r"

text \<open>Every set an effect belongs to is listed in its \<open>deps\<close>: what \<open>track\<close>
  maintains by adding to both, and what makes \<open>cleanupEffect\<close> complete.\<close>

definition deps_ok :: "rstate \<Rightarrow> bool" where
  "deps_ok s = (\<forall>e t k. e \<in> set (subscribers s t k) \<longrightarrow> (t, k) \<in> set (deps (effects s e)))"

text \<open>Between \<open>s\<close> and \<open>s'\<close> subscriptions were only added by \<open>track\<close> calls that
  the trace records.\<close>

definition tracked_only :: "rstate \<Rightarrow> rstate \<Rightarrow> bool" where
  "tracked_only s s' =
     (\<exists>evs. trace s' = trace s @ evs \<and>
        (deps_ok s \<longrightarrow>
           deps_ok s' \<and>
           (\<forall>c t k. c \<in> set (subscribers s' t k) \<longrightarrow>
                      c \<in> set (subscribers s t k) \<or> EvTrack c t k \<in> set evs)))"

definition dep_lookup :: "(target \<rightharpoonup> (pkey \<rightharpoonup> nat list)) \<Rightarrow> target \<Rightarrow> pkey \<Rightarrow> nat list" where
  "dep_lookup tm t k =
     (case tm t of None \<Rightarrow> [] | Some depsMap \<Rightarrow> (case depsMap k of None \<Rightarrow> [] | Some dep \<Rightarrow> dep))"


text \<open>How often the function of the effect \<open>e\<close> has been called.\<close>

definition fn_calls :: "nat \<Rightarrow> rstate \<Rightarrow> nat" where
  "fn_calls e s = count_list (trace s) (EvFn e)"


text \<open>The computed whose constructor installed this scheduler, if any.\<close>

fun computed_of :: "sched option \<Rightarrow> nat option" where
  "computed_of (Some (SchedComputed c)) = Some c"
| "computed_of _ = None"

text \<open>How often \<open>trigger(this, 'value')\<close> has been called for the computed \<open>c\<close>.\<close>

definition downstream :: "nat \<Rightarrow> rstate \<Rightarrow> nat" where
  "downstream c s = count_list (trace s) (EvTrigger (TComputed c) VALUE_KEY)"

subsection \<open>Who can notify a computation\<close>

text \<open>The events that an evaluation from \<open>s\<close> to \<open>s'\<close> added to the trace.\<close>

definition new_events :: "rstate \<Rightarrow> rstate \<Rightarrow> event list" where
  "new_events s s' = drop (length (trace s)) (trace s')"

text \<open>Code written against the public API, as seen from the effect \<open>c\<close>: it does not call
  the runner of \<open>c\<close>, and it has no access to the loop of \<open>trigger\<close> or to a scheduler
  (\<open>TriggerEffects\<close> and \<open>CallScheduler\<close> are steps of \<open>trigger\<close>, not expressions a
  user writes).\<close>

fun user_code :: "nat \<Rightarrow> expr \<Rightarrow> bool" where
  "user_code c (Lit v) = True"
| "user_code c (Seq a b) = (user_code c a \<and> user_code c b)"
| "user_code c (Cond x a b) = (user_code c x \<and> user_code c a \<and> user_code c b)"
| "user_code c (Op2 f a b) = (user_code c a \<and> user_code c b)"
| "user_code c (Throw a) = user_code c a"
| "user_code c (PropGet a k) = user_code c a"
| "user_code c (PropSet a k b) = (user_code c a \<and> user_code c b)"
| "user_code c (PropHas k a) = user_code c a"
| "user_code c (OwnKeys a) = user_code c a"
| "user_code c (PropDelete a k) = user_code c a"
| "user_code c (Reactive a) = user_code c a"
| "user_code c (ComputedValue x) = True"
| "user_code c (Run e) = (e \<noteq> c)"
| "user_code c (Stop e) = True"
| "user_code c (Track t k) = True"
| "user_code c (Trigger t k) = True"
| "user_code c (TriggerEffects es) = False"
| "user_code c (CallScheduler e) = False"

text \<open>The same for the steps that \<open>trigger\<close> itself takes: its loop runs over subscribers
  other than \<open>c\<close>.\<close>

fun step_code :: "nat \<Rightarrow> expr \<Rightarrow> bool" where
  "step_code c (TriggerEffects es) = (c \<notin> set es)"
| "step_code c (CallScheduler e) = True"
| "step_code c e = user_code c e"

text \<open>Every function and every scheduler stored in the state is such code, and \<open>c\<close> is not
  the effect of a computed (whose getter would be run by a read, not by a trigger).\<close>

definition code_ok :: "nat \<Rightarrow> rstate \<Rightarrow> bool" where
  "code_ok c s =
     ((\<forall>e. user_code c (fn (effects s e))) \<and>
      (\<forall>e b. scheduler (effects s e) = Some (SchedFn b) \<longrightarrow> user_code c b) \<and>
      (\<forall>x. c_effect (computeds s x) \<noteq> c))"

text \<open>\<open>c\<close> is not running: it is neither on the effect stack nor the active effect.\<close>

definition calm :: "nat \<Rightarrow> rstate \<Rightarrow> bool" where
  "calm c s = (code_ok c s \<and> c \<notin> set (effectStack s) \<and> activeEffect s \<noteq> Some c)"

text \<open>Since the state \<open>a\<close>, a key that \<open>c\<close> was subscribed to in \<open>a\<close> has been triggered.\<close>

definition triggered :: "nat \<Rightarrow> rstate \<Rightarrow> rstate \<Rightarrow> bool" where
  "triggered c a s =
     (\<exists>evs. trace s = trace a @ evs \<and>
        (\<exists>t k. EvTrigger t k \<in> set evs \<and> c \<in> set (subscribers a t k)))"

text \<open>Since the state \<open>a\<close>, \<open>c\<close> has not been entered, run by a trigger or scheduled, it
  is still not running, and it has no subscription it did not have in \<open>a\<close>.\<close>

definition unnotified :: "nat \<Rightarrow> rstate \<Rightarrow> rstate \<Rightarrow> bool" where
  "unnotified c a s =
     (\<exists>evs. trace s = trace a @ evs \<and> calm c s \<and>
        EvFn c \<notin> set evs \<and> EvRun c \<notin> set evs \<and> EvSched c \<notin> set evs \<and>
        (\<forall>t k. c \<in> set (subscribers s t k) \<longrightarrow> c \<in> set (subscribers a t k)))"

text \<open>One or the other: what every evaluation of such code keeps, from a state \<open>a\<close>
  in which \<open>c\<close> was not running.\<close>

definition follows :: "nat \<Rightarrow> rstate \<Rightarrow> rstate \<Rightarrow> bool" where
  "follows c a s = (triggered c a s \<or> unnotified c a s)"

text \<open>Since the state \<open>a\<close>, the computed \<open>c\<close> is still dirty unless its getter has been
  called.\<close>

definition stays_dirty :: "nat \<Rightarrow> rstate \<Rightarrow> rstate \<Rightarrow> bool" where
  "stays_dirty c a s =
     (\<exists>evs. trace s = trace a @ evs \<and>
        c_effect (computeds s c) = c_effect (computeds a c) \<and>
        (c_dirty (computeds s c) \<or> EvFn (c_effect (computeds a c)) \<in> set evs))"

section \<open>Scenarios\<close>

text \<open>Programs and states used to run the model: a counter object
  \<open>reactive({count: i})\<close> with its proxy, effects reading and writing it, an object with
  a conditional reader, and a computed \<open>count * 2\<close>.\<close>

definition trace_of :: "result \<Rightarrow> event list option" where
  "trace_of r = map_option (\<lambda>(out, s). trace s) r"

definition count_key :: pkey where
  "count_key = KStr ''count''"

definition counter_heap :: "int \<Rightarrow> nat \<Rightarrow> (pkey \<times> jsval) list" where
  "counter_heap i = (\<lambda>_. [])(0 := [(count_key, VNum i)])"

definition counter_state :: "int \<Rightarrow> rstate" where
  "counter_state i = snd (reactive (VObj 0) (init_state (counter_heap i)))"

definition the_proxy :: expr where
  "the_proxy = Lit (VProxy 0)"

definition read_count :: expr where
  "read_count = PropGet the_proxy count_key"

definition write_count :: "int \<Rightarrow> expr" where
  "write_count i = PropSet the_proxy count_key (Lit (VNum i))"

definition with_effect :: "nat \<Rightarrow> expr \<Rightarrow> sched option \<Rightarrow> rstate \<Rightarrow> rstate" where
  "with_effect e f sch s = s\<lparr>effects := (effects s)(e := mk_effect f sch)\<rparr>"

definition reader_state :: rstate where
  "reader_state = with_effect 1 read_count None (counter_state 0)"

definition inside_run :: rstate where
  "inside_run = log (EvFn 1) (run_enter 1 reader_state)"

definition after_run :: rstate where
  "after_run = state_of (eval 5 (Run 1) reader_state)"

definition flag_reader_state :: rstate where
  "flag_reader_state = with_effect 1 (PropGet the_proxy IS_REACTIVE) None (counter_state 0)"

definition nested_state :: rstate where
  "nested_state =
     with_effect 1 (Seq read_count (Run 2)) None
       (with_effect 2 (write_count 1) None (counter_state 0))"

definition enumerating_state :: rstate where
  "enumerating_state = with_effect 1 (OwnKeys the_proxy) None (counter_state 0)"

definition ok_key :: pkey where "ok_key = KStr ''ok''"
definition text_key :: pkey where "text_key = KStr ''text''"

definition toggle_heap :: "nat \<Rightarrow> (pkey \<times> jsval) list" where
  "toggle_heap = (\<lambda>_. [])(0 := [(ok_key, VBool True), (text_key, VStr ''hello'')])"

definition toggle_state :: rstate where
  "toggle_state =
     with_effect 1
       (Cond (PropGet the_proxy ok_key) (PropGet the_proxy text_key) (Lit (VStr ''not''))) None
       (snd (reactive (VObj 0) (init_state toggle_heap)))"

definition after_first_run :: rstate where
  "after_first_run = state_of (eval 9 (Run 1) toggle_state)"

definition toggled :: rstate where
  "toggled = log (EvRun 1) (log (EvTrigger (TObj 0) ok_key)
               (raw_set 0 ok_key (VBool False) after_first_run))"

definition after_second_run :: rstate where
  "after_second_run = state_of (eval 9 (Run 1) toggled)"

definition num_times :: "jsval \<Rightarrow> jsval \<Rightarrow> jsval" where
  "num_times a b = (case (a, b) of (VNum x, VNum y) \<Rightarrow> VNum (x * y) | _ \<Rightarrow> VNaN)"

definition double_count :: expr where
  "double_count = Op2 num_times read_count (Lit (VNum 2))"

definition computed_state :: rstate where
  "computed_state = new_computed 0 1 double_count (counter_state 1)"

definition watching_state :: rstate where
  "watching_state =
     state_of (eval 9 (Run 2)
       (with_effect 2 (ComputedValue 0) (Some (SchedFn (Lit VUndef))) computed_state))"

definition notified_once :: rstate where
  "notified_once = state_of (eval 9 (TriggerEffects [1]) watching_state)"

definition keyed_item :: "string \<Rightarrow> vnode" where
  "keyed_item s = createVNode (Tag ''li'') (Some [(''key'', VStr s)]) (CText s)"

definition keyed_list :: "string list \<Rightarrow> vnode" where
  "keyed_list xs = createVNode (Tag ''ul'') None (CArray (map keyed_item xs))"

definition mounted_item :: "string \<Rightarrow> nat \<Rightarrow> vnode" where
  "mounted_item s i = set_el (Some (PElement i)) (keyed_item s)"

definition empty_dom :: dom where
  "empty_dom = \<lparr>ops = [], nextNode = 0\<rparr>"

definition mounted_list :: "vnode rres" where
  "mounted_list = patch 3 None (keyed_list [''A'', ''B'', ''C'']) (PElement 100) None empty_dom"

definition result_vnode :: "vnode rres \<Rightarrow> vnode" where
  "result_vnode r = (case r of Done v d \<Rightarrow> v | _ \<Rightarrow> createTextVNode [])"

definition result_dom :: "'a rres \<Rightarrow> dom" where
  "result_dom r = (case r of Done v d \<Rightarrow> d | Failed e d \<Rightarrow> d | Timeout \<Rightarrow> empty_dom)"

definition counting_hook :: "nat hook" where
  "counting_hook w = (None, w\<lparr>user := Suc (user w)\<rparr>)"

definition failing_hook :: "string \<Rightarrow> nat hook" where
  "failing_hook msg w = (Some (VStr msg), w\<lparr>user := Suc (user w)\<rparr>)"

definition demo_render :: "nat hook" where
  "demo_render w = (None, w\<lparr>user := user w + 100\<rparr>)"

definition demo_cstate :: "nat cstate" where
  "demo_cstate =
     injectHook MOUNTED counting_hook None
       (injectHook MOUNTED (failing_hook ''boom'') None
          (injectHook MOUNTED counting_hook (Some 0)
             (injectHook BEFORE_MOUNT (failing_hook ''early'') (Some 0)
                \<lparr>instances = (\<lambda>_. createComponentInstance), currentInstance = Some 0,
                 cworld = \<lparr>console = [], user = 0\<rparr>\<rparr>)))"

definition demo_instance :: "nat comp_instance" where
  "demo_instance = instances demo_cstate 0"

text \<open>An effect that runs a second effect which re-triggers the first, and reads
  \<open>text\<close> only afterwards; an effect that stops itself on its first run and goes on
  reading; a computed whose getter throws a TypeError; and a computed whose getter reads
  its own value after clearing the flag that made it do so.\<close>

definition nested_rerun_state :: rstate where
  "nested_rerun_state =
     with_effect 1
       (Cond (PropGet the_proxy ok_key) (Seq (Run 2) (PropGet the_proxy text_key)) (Lit (VStr ''not''))) None
       (with_effect 2 (PropSet the_proxy ok_key (Lit (VBool False))) None
         (snd (reactive (VObj 0) (init_state toggle_heap))))"

definition stopping_state :: rstate where
  "stopping_state =
     with_effect 1
       (Seq (Cond (PropGet the_proxy ok_key) (Stop 1) (Lit VUndef))
            (Cond (PropGet the_proxy ok_key) (PropGet the_proxy text_key) (Lit (VStr ''not'')))) None
       (snd (reactive (VObj 0) (init_state toggle_heap)))"



section \<open>Properties\<close>

subsection \<open>Virtual node keys\<close>

lemma or_null_falsy: "\<not> truthy v \<Longrightarrow> or_null v = VNull"
  by (simp add: or_null_def)

lemma createVNode_key: "key (createVNode t p c) = or_null (props_key p)"
  by (simp add: createVNode_def)

lemma createVNode_vtype: "vtype (createVNode t p c) = t"
  by (simp add: createVNode_def)

text \<open>
  C10. \<open>createVNode\<close> takes the key from \<open>props.key\<close> with a truthiness test: whenever
  \<open>props.key\<close> is falsy (0, the empty string, false, or no key at all) the stored key is
  \<open>null\<close>, and so two nodes of the same type whose keys are falsy or absent are the
  same node for \<open>isSameVNodeType\<close>.
\<close>

theorem createVNode_falsy_key_same_type:
  "(\<not> truthy (props_key p1) \<longrightarrow> key (createVNode t p1 c1) = VNull) \<and>
   (\<not> truthy (props_key p1) \<and> \<not> truthy (props_key p2) \<longrightarrow>
      isSameVNodeType (createVNode t p1 c1) (createVNode t p2 c2))"
  by (simp add: isSameVNodeType_def createVNode_key createVNode_vtype or_null_falsy)

theorem createVNode_falsy_key_same_type_witness:
  "key (createVNode (Tag ''li'') (Some [(''key'', VNum 0)]) CNull) = VNull \<and>
   key (createVNode (Tag ''li'') (Some [(''key'', VStr '''')]) CNull) = VNull \<and>
   key (createVNode (Tag ''li'') (Some [(''key'', VBool False)]) CNull) = VNull \<and>
   isSameVNodeType (createVNode (Tag ''li'') (Some [(''key'', VNum 0)]) (CText ''a''))
                   (createVNode (Tag ''li'') (Some [(''key'', VStr '''')]) (CText ''b'')) \<and>
   isSameVNodeType (createVNode (Tag ''li'') (Some [(''key'', VNum 0)]) (CText ''a''))
                   (createVNode (Tag ''li'') None (CText ''c'')) \<and>
   isSameVNodeType (createVNode (Tag ''li'') (Some [(''key'', VStr '''')]) (CText ''b''))
                   (createVNode (Tag ''li'') (Some [(''id'', VStr ''x'')]) (CText ''c''))"
  using createVNode_falsy_key_same_type
          [of "Some [(''key'', VNum 0)]" "Tag ''li''" CNull "Some [(''key'', VStr '''')]" CNull]
        createVNode_falsy_key_same_type
          [of "Some [(''key'', VStr '''')]" "Tag ''li''" CNull "Some [(''key'', VBool False)]" CNull]
        createVNode_falsy_key_same_type
          [of "Some [(''key'', VBool False)]" "Tag ''li''" CNull None CNull]
        createVNode_falsy_key_same_type
          [of "Some [(''key'', VNum 0)]" "Tag ''li''" "CText ''a''" "Some [(''key'', VStr '''')]" "CText ''b''"]
        createVNode_falsy_key_same_type
          [of "Some [(''key'', VNum 0)]" "Tag ''li''" "CText ''a''" None "CText ''c''"]
        createVNode_falsy_key_same_type
          [of "Some [(''key'', VStr '''')]" "Tag ''li''" "CText ''b''" "Some [(''id'', VStr ''x'')]" "CText ''c''"]
  by (simp add: props_key_def)

subsection \<open>The keyed child-list diff\<close>

lemma rbind_Done [simp]: "rbind (Done x d) f = f x d"
  by (simp add: rbind_def)

lemma rbind_assoc: "rbind (rbind r f) g = rbind r (\<lambda>x d. rbind (f x d) g)"
  by (simp add: rbind_def split: rres.splits)

lemma rbind_DoneE:
  assumes "rbind r f = Done y d'"
  obtains x d1 where "r = Done x d1" "f x d1 = Done y d'"
  using assms by (auto simp: rbind_def split: rres.splits)

lemma el_set_children [simp]: "el (set_children c n) = el n"
  by (simp add: set_children_def)

lemma el_set_el [simp]: "el (set_el e n) = e"
  by (simp add: set_el_def)

lemma patchChildren_el:
  "patchChildren p n1 n2 container anchor d = Done r d' \<Longrightarrow> el r = el n2"
  by (auto simp: patchChildren_def Let_def elim!: rbind_DoneE
           split: if_splits vchildren.splits prod.splits)

lemma patchElement_el: "patchElement p n1 n2 d = Done r d' \<Longrightarrow> el r = el n1"
  by (auto simp: patchElement_def Let_def dest!: patchChildren_el split: option.splits pnode.splits)

lemma processText_el: "processText (Some n1) n2 container anchor d = Done r d' \<Longrightarrow> el r = el n1"
  by (auto simp: processText_def Let_def split: if_splits)

lemma patch_in_place_el:
  assumes "isSameVNodeType n1 n2"
    and "vtype n2 = TextSym \<or> (vtype n2 \<noteq> FragmentSym \<and> has_flag n2 ELEMENT)"
    and "patch n (Some n1) n2 container anchor d = Done r d'"
  shows "el r = el n1"
proof -
  from assms(3) obtain m where n: "n = Suc m" by (cases n) auto
  from assms n show ?thesis
    by (auto simp: patch_body_def Let_def processElement_def
             dest: processText_el patchElement_el split: vtype.splits)
qed

text \<open>\<open>patch\<close> returns: fuel for the depth of the new node is enough.\<close>

lemma ldepth_le: "ldepth xs \<le> k \<longleftrightarrow> (\<forall>x\<in>set xs. vdepth x \<le> k)"
  by (induction xs) auto

lemma vdepth_children: "vdepth n \<le> Suc k \<longleftrightarrow> cdepth (children n) \<le> k"
  by (cases n) simp

lemma vdepth_set_el [simp]: "vdepth (set_el e n) = vdepth n"
  by (cases n) (simp add: set_el_def)

lemma vdepth_set_component [simp]: "vdepth (set_component c n) = vdepth n"
  by (cases n) (simp add: set_component_def)

lemma vdepth_set_children [simp]: "vdepth (set_children c n) = Suc (cdepth c)"
  by (cases n) (simp add: set_children_def)

lemma children_set_el [simp]: "children (set_el e n) = children n"
  by (simp add: set_el_def)

lemma returns_belowD:
  assumes "returns_below p k" and "vdepth n2 \<le> k"
  shows "p n1 n2 container anchor d \<noteq> Timeout"
    and "p n1 n2 container anchor d = Done v d' \<Longrightarrow> vdepth v \<le> k"
  using assms unfolding returns_below_def by blast+

lemma mount_each_below:
  assumes "returns_below p k" and "\<forall>x\<in>set xs. vdepth x \<le> k"
  shows "mount_each p xs container anchor d \<noteq> Timeout \<and>
         (\<forall>ys d'. mount_each p xs container anchor d = Done ys d' \<longrightarrow> (\<forall>y\<in>set ys. vdepth y \<le> k))"
  using assms(2)
proof (induction xs arbitrary: d)
  case Nil
  show ?case by simp
next
  case (Cons x xs)
  from Cons.prems have x: "vdepth x \<le> k" and xs: "\<forall>x\<in>set xs. vdepth x \<le> k" by auto
  note h = returns_belowD [OF assms(1) x, of None container anchor d]
  note ih = Cons.IH [OF xs]
  show ?case
  proof (cases "p None x container anchor d")
    case Timeout
    with h(1) show ?thesis by simp
  next
    case (Failed e d1)
    then show ?thesis by (simp add: rbind_def)
  next
    case (Done x' d1)
    with h(2) have x': "vdepth x' \<le> k" by simp
    from Done x' ih [of d1] show ?thesis
      by (auto simp: rbind_def split: rres.splits)
  qed
qed


lemma mount_range_below:
  assumes "returns_below p k"
  shows "(\<forall>x\<in>set c2. vdepth x \<le> k) \<Longrightarrow> (\<forall>j\<in>set js. j < length c2) \<Longrightarrow>
         mount_range p c2 js container anchor d \<noteq> Timeout \<and>
         (\<forall>ys d'. mount_range p c2 js container anchor d = Done ys d' \<longrightarrow> (\<forall>y\<in>set ys. vdepth y \<le> k))"
proof (induction js arbitrary: c2 d)
  case Nil
  then show ?case by simp
next
  case (Cons j js)
  from Cons.prems have j: "j < length c2" and js: "\<forall>j\<in>set js. j < length c2" by auto
  from Cons.prems(1) j have x: "vdepth (c2 ! j) \<le> k" by simp
  note h = returns_belowD [OF assms x, of None container anchor d]
  show ?case
  proof (cases "p None (c2 ! j) container anchor d")
    case Timeout
    with h(1) show ?thesis by simp
  next
    case (Failed e d1)
    then show ?thesis by (simp add: rbind_def)
  next
    case (Done x' d1)
    with h(2) have x': "vdepth x' \<le> k" by simp
    have b: "\<forall>x\<in>set (c2[j := x']). vdepth x \<le> k"
      using Cons.prems(1) x' set_update_subset_insert [of c2 j x'] by auto
    from js have l: "\<forall>i\<in>set js. i < length (c2[j := x'])" by simp
    from Cons.IH [OF b l, of d1] Done show ?thesis by simp
  qed
qed

lemma sync_start_below:
  "returns_below p k \<Longrightarrow> (\<forall>x\<in>set c2. vdepth x \<le> k) \<Longrightarrow> 0 \<le> i \<Longrightarrow> e2 < int (length c2) \<Longrightarrow>
         sync_start p c1 c2 container anchor i e1 e2 d \<noteq> Timeout \<and>
         (\<forall>ys i' d'. sync_start p c1 c2 container anchor i e1 e2 d = Done (ys, i') d' \<longrightarrow>
            (\<forall>y\<in>set ys. vdepth y \<le> k) \<and> length ys = length c2 \<and> 0 \<le> i')"
proof (induction p c1 c2 container anchor i e1 e2 d rule: sync_start.induct)
  case (1 p c1 c2 container anchor i e1 e2 d)
  note ok = "1.prems"(1) and bd = "1.prems"(2) and i0 = "1.prems"(3) and e2 = "1.prems"(4)
  show ?case
  proof (cases "i \<le> e1 \<and> i \<le> e2 \<and> isSameVNodeType (c1 ! nat i) (c2 ! nat i)")
    case False
    have "sync_start p c1 c2 container anchor i e1 e2 d = Done (c2, i) d"
      by (subst sync_start.simps) (use False in \<open>auto simp: Let_def\<close>)
    with bd i0 show ?thesis by simp
  next
    case True
    with i0 e2 have j: "nat i < length c2" by auto
    with bd have x: "vdepth (c2 ! nat i) \<le> k" by simp
    note h = returns_belowD [OF ok x, of "Some (c1 ! nat i)" container anchor d]
    show ?thesis
    proof (cases "p (Some (c1 ! nat i)) (c2 ! nat i) container anchor d")
      case Timeout
      with h(1) show ?thesis by simp
    next
      case (Failed e d1)
      with True have "sync_start p c1 c2 container anchor i e1 e2 d = Failed e d1"
        by (subst sync_start.simps) (simp add: Let_def rbind_def)
      then show ?thesis by simp
    next
      case (Done x' d1)
      with h(2) have x': "vdepth x' \<le> k" by simp
      have b: "\<forall>x\<in>set (c2[nat i := x']). vdepth x \<le> k"
        using bd x' set_update_subset_insert [of c2 "nat i" x'] by auto
      from True have c: "i \<le> e1 \<and> i \<le> e2" by simp
      from True have sm: "isSameVNodeType (c1 ! nat i) (c2 ! nat i)" by simp
      have ih: "sync_start p c1 (c2[nat i := x']) container anchor (i + 1) e1 e2 d1 \<noteq> Timeout \<and>
         (\<forall>ys i' d'. sync_start p c1 (c2[nat i := x']) container anchor (i + 1) e1 e2 d1 = Done (ys, i') d' \<longrightarrow>
            (\<forall>y\<in>set ys. vdepth y \<le> k) \<and> length ys = length (c2[nat i := x']) \<and> 0 \<le> i')"
        using "1.IH" [OF c refl refl sm ok b] i0 e2 by simp
      have eq: "sync_start p c1 c2 container anchor i e1 e2 d =
                sync_start p c1 (c2[nat i := x']) container anchor (i + 1) e1 e2 d1"
        using True Done by (subst sync_start.simps) (simp add: Let_def)
      from ih show ?thesis unfolding eq by simp
    qed
  qed
qed


lemma sync_end_below:
  "returns_below p k \<Longrightarrow> (\<forall>x\<in>set c2. vdepth x \<le> k) \<Longrightarrow> 0 \<le> i \<Longrightarrow> e2 < int (length c2) \<Longrightarrow>
         sync_end p c1 c2 container anchor i e1 e2 d \<noteq> Timeout \<and>
         (\<forall>ys e1' e2' d'. sync_end p c1 c2 container anchor i e1 e2 d = Done (ys, e1', e2') d' \<longrightarrow>
            (\<forall>y\<in>set ys. vdepth y \<le> k) \<and> length ys = length c2 \<and> e2' < int (length c2))"
proof (induction p c1 c2 container anchor i e1 e2 d rule: sync_end.induct)
  case (1 p c1 c2 container anchor i e1 e2 d)
  note ok = "1.prems"(1) and bd = "1.prems"(2) and i0 = "1.prems"(3) and e2 = "1.prems"(4)
  show ?case
  proof (cases "i \<le> e1 \<and> i \<le> e2 \<and> isSameVNodeType (c1 ! nat e1) (c2 ! nat e2)")
    case False
    have "sync_end p c1 c2 container anchor i e1 e2 d = Done (c2, e1, e2) d"
      by (subst sync_end.simps) (use False in \<open>auto simp: Let_def\<close>)
    with bd e2 show ?thesis by simp
  next
    case True
    with i0 e2 have j: "nat e2 < length c2" by auto
    with bd have x: "vdepth (c2 ! nat e2) \<le> k" by simp
    note h = returns_belowD [OF ok x, of "Some (c1 ! nat e1)" container anchor d]
    show ?thesis
    proof (cases "p (Some (c1 ! nat e1)) (c2 ! nat e2) container anchor d")
      case Timeout
      with h(1) show ?thesis by simp
    next
      case (Failed e d1)
      with True have "sync_end p c1 c2 container anchor i e1 e2 d = Failed e d1"
        by (subst sync_end.simps) (simp add: Let_def rbind_def)
      then show ?thesis by simp
    next
      case (Done x' d1)
      with h(2) have x': "vdepth x' \<le> k" by simp
      have b: "\<forall>x\<in>set (c2[nat e2 := x']). vdepth x \<le> k"
        using bd x' set_update_subset_insert [of c2 "nat e2" x'] by auto
      from True have c: "i \<le> e1 \<and> i \<le> e2" by simp
      from True have sm: "isSameVNodeType (c1 ! nat e1) (c2 ! nat e2)" by simp
      have ih: "sync_end p c1 (c2[nat e2 := x']) container anchor i (e1 - 1) (e2 - 1) d1 \<noteq> Timeout \<and>
         (\<forall>ys e1' e2' d'. sync_end p c1 (c2[nat e2 := x']) container anchor i (e1 - 1) (e2 - 1) d1
              = Done (ys, e1', e2') d' \<longrightarrow>
            (\<forall>y\<in>set ys. vdepth y \<le> k) \<and> length ys = length (c2[nat e2 := x']) \<and>
            e2' < int (length (c2[nat e2 := x'])))"
        using "1.IH" [OF c refl refl sm ok b] i0 e2 by simp
      have eq: "sync_end p c1 c2 container anchor i e1 e2 d =
                sync_end p c1 (c2[nat e2 := x']) container anchor i (e1 - 1) (e2 - 1) d1"
        using True Done by (subst sync_end.simps) (simp add: Let_def)
      from ih show ?thesis unfolding eq by simp
    qed
  qed
qed

lemma index_range_below: "e < int (length xs) \<Longrightarrow> \<forall>j\<in>set (index_range i e). j < length xs"
  by (auto simp: index_range_def)

lemma patchKeyedChildren_below:
  assumes ok: "returns_below p k" and bd: "\<forall>x\<in>set c2. vdepth x \<le> k"
  shows "patchKeyedChildren p c1 c2 container anchor d \<noteq> Timeout \<and>
         (\<forall>ys d'. patchKeyedChildren p c1 c2 container anchor d = Done ys d' \<longrightarrow>
            (\<forall>y\<in>set ys. vdepth y \<le> k))"
proof -
  let ?e1 = "int (length c1) - 1" and ?e2 = "int (length c2) - 1"
  note st = sync_start_below [OF ok bd, of 0 ?e2 c1 container anchor ?e1 d]
  show ?thesis
  proof (cases "sync_start p c1 c2 container anchor 0 ?e1 ?e2 d")
    case Timeout
    with st show ?thesis by simp
  next
    case (Failed e d1)
    then show ?thesis by (simp add: patchKeyedChildren_def Let_def rbind_def)
  next
    case (Done r d1)
    obtain c2a i where r: "r = (c2a, i)" by (cases r)
    from st Done r have a: "\<forall>y\<in>set c2a. vdepth y \<le> k" "length c2a = length c2" "0 \<le> i" by auto
    from a(2) have "?e2 < int (length c2a)" by simp
    note en = sync_end_below [OF ok a(1) a(3) this, of c1 container anchor ?e1 d1]
    show ?thesis
    proof (cases "sync_end p c1 c2a container anchor i ?e1 ?e2 d1")
      case Timeout
      with en show ?thesis by simp
    next
      case (Failed e d2)
      with Done r show ?thesis by (simp add: patchKeyedChildren_def Let_def rbind_def)
    next
      case Done2: (Done r2 d2)
      obtain c2b e1' e2' where r2: "r2 = (c2b, e1', e2')" by (cases r2)
      from en Done2 r2 have b: "\<forall>y\<in>set c2b. vdepth y \<le> k" "e2' < int (length c2b)" by auto
      note ir = index_range_below [OF b(2), of i]
      note mr = mount_range_below [OF ok b(1) ir]
      from Done r Done2 r2 b(1) mr show ?thesis
        by (simp add: patchKeyedChildren_def Let_def)
    qed
  qed
qed


lemma mountChildren_below:
  assumes "returns_below p k" and "cdepth c \<le> k"
  shows "mountChildren p c container anchor d \<noteq> Timeout \<and>
         (\<forall>c' d'. mountChildren p c container anchor d = Done c' d' \<longrightarrow> cdepth c' \<le> k)"
proof (cases c)
  case (CArray xs)
  with assms(2) have "\<forall>x\<in>set xs. vdepth x \<le> k" by (simp add: ldepth_le)
  from mount_each_below [OF assms(1) this, of container anchor d] CArray show ?thesis
    by (auto simp: mountChildren_def rbind_def ldepth_le split: rres.splits)
qed (simp_all add: mountChildren_def)

lemma unmountChildren_returns [simp]: "unmountChildren c d \<noteq> Timeout"
  by (simp add: unmountChildren_def split: vchildren.splits)

lemma patchChildren_below:
  assumes "returns_below p k" and "vdepth n2 \<le> Suc k"
  shows "patchChildren p n1 n2 container anchor d \<noteq> Timeout \<and>
         (\<forall>v d'. patchChildren p n1 n2 container anchor d = Done v d' \<longrightarrow> vdepth v \<le> Suc k)"
proof -
  from assms(2) have c: "cdepth (children n2) \<le> k" by (simp add: vdepth_children)
  note mc = mountChildren_below [OF assms(1) c]
  have kc: "\<And>xs ys d. children n2 = CArray ys \<Longrightarrow>
      patchKeyedChildren p xs ys container anchor d \<noteq> Timeout \<and>
      (\<forall>ys' d'. patchKeyedChildren p xs ys container anchor d = Done ys' d' \<longrightarrow> ldepth ys' \<le> k)"
    using patchKeyedChildren_below [OF assms(1)] c by (simp add: ldepth_le)
  have u: "\<And>c d. unmountChildren c d \<noteq> Timeout" by simp
  show ?thesis
    unfolding patchChildren_def Let_def
    using assms(2) mc kc u
    by (auto simp: rbind_def split: rres.splits vchildren.splits)
qed

lemma processFragment_below:
  assumes "returns_below p k" and "vdepth n2 \<le> Suc k"
  shows "processFragment p n1 n2 container anchor d \<noteq> Timeout \<and>
         (\<forall>v d'. processFragment p n1 n2 container anchor d = Done v d' \<longrightarrow> vdepth v \<le> Suc k)"
proof (cases n1)
  case None
  from assms(2) have c: "cdepth (children n2) \<le> k" by (simp add: vdepth_children)
  from mountChildren_below [OF assms(1) c, of container anchor d] None show ?thesis
    by (auto simp: processFragment_def rbind_def split: rres.splits)
next
  case (Some o1)
  with patchChildren_below [OF assms] show ?thesis by (simp add: processFragment_def)
qed

lemma mountElement_below:
  assumes "returns_below p k" and "vdepth n2 \<le> Suc k"
  shows "mountElement p n2 container anchor d \<noteq> Timeout \<and>
         (\<forall>v d'. mountElement p n2 container anchor d = Done v d' \<longrightarrow> vdepth v \<le> Suc k)"
proof -
  from assms(2) have c: "cdepth (children n2) \<le> k" by (simp add: vdepth_children)
  note mc = mountChildren_below [OF assms(1) c]
  show ?thesis
    unfolding mountElement_def Let_def
    using assms(2) mc
    by (auto simp: rbind_def split: rres.splits)
qed

lemma patchElement_below:
  assumes "returns_below p k" and "vdepth n2 \<le> Suc k"
  shows "patchElement p n1 n2 d \<noteq> Timeout \<and>
         (\<forall>v d'. patchElement p n1 n2 d = Done v d' \<longrightarrow> vdepth v \<le> Suc k)"
proof -
  from assms(2) have "vdepth (set_el (el n1) n2) \<le> Suc k" by simp
  note pc = patchChildren_below [OF assms(1) this]
  show ?thesis
    unfolding patchElement_def Let_def
    using assms(2) pc
    by (auto split: option.splits pnode.splits)
qed

lemma processText_below:
  "processText n1 n2 container anchor d \<noteq> Timeout \<and>
   (\<forall>v d'. processText n1 n2 container anchor d = Done v d' \<longrightarrow> vdepth v = vdepth n2)"
  by (auto simp: processText_def Let_def split: option.splits)

lemma processComponent_below:
  "processComponent n1 n2 container anchor d \<noteq> Timeout \<and>
   (\<forall>v d'. processComponent n1 n2 container anchor d = Done v d' \<longrightarrow> vdepth v = vdepth n2)"
  by (auto simp: processComponent_def Let_def split: option.splits)

lemma patch_body_below:
  assumes "returns_below p k"
  shows "returns_below (patch_body p) (Suc k)"
  unfolding returns_below_def
proof (intro allI impI)
  fix n1 n2 container anchor d
  assume b: "vdepth n2 \<le> Suc k"
  note pf = processFragment_below [OF assms b]
    and me = mountElement_below [OF assms b]
    and pe = patchElement_below [OF assms b]
  show "patch_body p n1 n2 container anchor d \<noteq> Timeout \<and>
        (\<forall>v d'. patch_body p n1 n2 container anchor d = Done v d' \<longrightarrow> vdepth v \<le> Suc k)"
    unfolding patch_body_def Let_def processElement_def
    using b pf me pe processText_below processComponent_below
    by (auto split: vtype.splits option.splits)
qed

lemma patch_below: "returns_below (patch n) n"
proof (induction n)
  case 0
  show ?case by (auto simp: returns_below_def) (case_tac n2, simp)
next
  case (Suc n)
  then show ?case by (simp add: patch_body_below)
qed

lemma patch_returns:
  assumes "vdepth n2 \<le> n"
  shows "patch n n1 n2 container anchor d \<noteq> Timeout"
  using returns_belowD(1) [OF patch_below assms] .

text \<open>
  C4. For an old list \<open>[A, B, C]\<close> and a new list \<open>[A', C']\<close> where \<open>A'\<close> and \<open>C'\<close> are
  the same type (type and key) as \<open>A\<close> and \<open>C\<close>, and \<open>B\<close> is not the same type as \<open>C'\<close>:
  the keyed diff is exactly \<open>patch(A, A')\<close>, then \<open>patch(C, C')\<close>, then one \<open>unmount(B)\<close>;
  no node is mounted (no \<open>patch(null, ...)\<close>), and a patched element or text node takes
  over the platform node of its old node. With fuel for the depth of \<open>A'\<close> and \<open>C'\<close> the
  diff returns.
\<close>

theorem keyed_diff_removes_middle:
  assumes "isSameVNodeType A A'" and "isSameVNodeType C C'" and "\<not> isSameVNodeType B C'"
  shows "patchKeyedChildren (patch n) [A, B, C] [A', C'] container anchor d =
           rbind (patch n (Some A) A' container anchor d) (\<lambda>a' d1.
             rbind (patch n (Some C) C' container anchor d1) (\<lambda>c' d2.
               Done [a', c'] (unmount B d2))) \<and>
         (\<forall>a' d1. patch n (Some A) A' container anchor d = Done a' d1 \<and>
                   (vtype A' = TextSym \<or> (vtype A' \<noteq> FragmentSym \<and> has_flag A' ELEMENT))
                   \<longrightarrow> el a' = el A) \<and>
         (\<forall>c' d1 d2. patch n (Some C) C' container anchor d1 = Done c' d2 \<and>
                   (vtype C' = TextSym \<or> (vtype C' \<noteq> FragmentSym \<and> has_flag C' ELEMENT))
                   \<longrightarrow> el c' = el C) \<and>
         (vdepth A' \<le> n \<and> vdepth C' \<le> n \<longrightarrow>
            patchKeyedChildren (patch n) [A, B, C] [A', C'] container anchor d \<noteq> Timeout)"
proof -
  have s1: "\<And>a' d1. sync_start (patch n) [A, B, C] [a', C'] container anchor 1 2 1 d1 =
        Done ([a', C'], 1) d1"
    using assms(3) by (subst sync_start.simps) (simp add: Let_def)
  have s1': "\<And>a'. sync_start (patch n) [A, B, C] [a', C'] container anchor 1 2 1 = Done ([a', C'], 1)"
    by (rule ext) (rule s1)
  have start: "sync_start (patch n) [A, B, C] [A', C'] container anchor 0 2 1 d =
        rbind (patch n (Some A) A' container anchor d) (\<lambda>a' d1. Done ([a', C'], 1) d1)"
    using assms(1) by (subst sync_start.simps) (simp add: Let_def s1')
  have e1: "\<And>a' c' d2. sync_end (patch n) [A, B, C] [a', c'] container anchor 1 1 0 d2 =
        Done ([a', c'], 1, 0) d2"
    by (subst sync_end.simps) simp
  have e1': "\<And>a' c'. sync_end (patch n) [A, B, C] [a', c'] container anchor 1 1 0 = Done ([a', c'], 1, 0)"
    by (rule ext) (rule e1)
  have fin: "\<And>a' d1. sync_end (patch n) [A, B, C] [a', C'] container anchor 1 2 1 d1 =
        rbind (patch n (Some C) C' container anchor d1) (\<lambda>c' d2. Done ([a', c'], 1, 0) d2)"
    using assms(2) by (subst sync_end.simps) (simp add: Let_def e1')
  have u: "[Suc 0..<2] = [Suc 0]" by (simp add: numeral_2_eq_2)
  have eq: "patchKeyedChildren (patch n) [A, B, C] [A', C'] container anchor d =
           rbind (patch n (Some A) A' container anchor d) (\<lambda>a' d1.
             rbind (patch n (Some C) C' container anchor d1) (\<lambda>c' d2.
               Done [a', c'] (unmount B d2)))"
    by (simp add: patchKeyedChildren_def Let_def start fin rbind_assoc index_range_def unmount_range_def u)
  have ret: "patchKeyedChildren (patch n) [A, B, C] [A', C'] container anchor d \<noteq> Timeout"
    if "vdepth A' \<le> n \<and> vdepth C' \<le> n"
  proof -
    from that have a: "patch n (Some A) A' container anchor d \<noteq> Timeout"
      and c: "\<And>d1. patch n (Some C) C' container anchor d1 \<noteq> Timeout"
      by (simp_all add: patch_returns)
    show ?thesis
      unfolding eq using a c by (auto simp: rbind_def split: rres.splits)
  qed
  from eq ret assms patch_in_place_el show ?thesis by blast
qed

theorem keyed_diff_removes_middle_witness:
  "isSameVNodeType (mounted_item ''A'' 1) (keyed_item ''A'') \<and>
   isSameVNodeType (mounted_item ''C'' 3) (keyed_item ''C'') \<and>
   \<not> isSameVNodeType (mounted_item ''B'' 2) (keyed_item ''C'') \<and>
   children (result_vnode mounted_list)
     = CArray [mounted_item ''A'' 1, mounted_item ''B'' 2, mounted_item ''C'' 3] \<and>
   patchKeyedChildren (patch 3)
       [mounted_item ''A'' 1, mounted_item ''B'' 2, mounted_item ''C'' 3]
       [keyed_item ''A'', keyed_item ''C''] (PElement 0) None (result_dom mounted_list)
     = Done [mounted_item ''A'' 1, mounted_item ''C'' 3]
         (emit (Remove (Some (PElement 2))) (result_dom mounted_list)) \<and>
   el (mounted_item ''A'' 1) = Some (PElement 1) \<and> el (mounted_item ''C'' 3) = Some (PElement 3) \<and>
   vdepth (keyed_item ''A'') \<le> 3 \<and> vdepth (keyed_item ''C'') \<le> 3 \<and>
   patch 3 (Some (result_vnode mounted_list)) (keyed_list [''A'', ''C'']) (PElement 100) None
       (result_dom mounted_list)
     = Done (set_el (Some (PElement 0))
              (set_children (CArray [mounted_item ''A'' 1, mounted_item ''C'' 3]) (keyed_list [''A'', ''C''])))
         (emit (Remove (Some (PElement 2))) (result_dom mounted_list))"
proof -
  have v: "vdepth (keyed_item ''A'') \<le> 3" "vdepth (keyed_item ''C'') \<le> 3" by code_simp+
  have a: "isSameVNodeType (mounted_item ''A'' 1) (keyed_item ''A'')" by code_simp
  have b: "isSameVNodeType (mounted_item ''C'' 3) (keyed_item ''C'')" by code_simp
  have c: "\<not> isSameVNodeType (mounted_item ''B'' 2) (keyed_item ''C'')" by code_simp
  have m: "children (result_vnode mounted_list)
     = CArray [mounted_item ''A'' 1, mounted_item ''B'' 2, mounted_item ''C'' 3]" by code_simp
  have r: "rbind (patch 3 (Some (mounted_item ''A'' 1)) (keyed_item ''A'') (PElement 0) None (result_dom mounted_list))
            (\<lambda>a' d1. rbind (patch 3 (Some (mounted_item ''C'' 3)) (keyed_item ''C'') (PElement 0) None d1)
               (\<lambda>c' d2. Done [a', c'] (unmount (mounted_item ''B'' 2) d2)))
         = Done [mounted_item ''A'' 1, mounted_item ''C'' 3]
             (emit (Remove (Some (PElement 2))) (result_dom mounted_list))" by code_simp
  have e: "el (mounted_item ''A'' 1) = Some (PElement 1)" "el (mounted_item ''C'' 3) = Some (PElement 3)"
    by code_simp+
  have w: "patch 3 (Some (result_vnode mounted_list)) (keyed_list [''A'', ''C'']) (PElement 100) None
       (result_dom mounted_list)
     = Done (set_el (Some (PElement 0))
              (set_children (CArray [mounted_item ''A'' 1, mounted_item ''C'' 3]) (keyed_list [''A'', ''C''])))
         (emit (Remove (Some (PElement 2))) (result_dom mounted_list))" by code_simp
  from keyed_diff_removes_middle [OF a b c, of 3 "PElement 0" None "result_dom mounted_list"] r
  have "patchKeyedChildren (patch 3)
       [mounted_item ''A'' 1, mounted_item ''B'' 2, mounted_item ''C'' 3]
       [keyed_item ''A'', keyed_item ''C''] (PElement 0) None (result_dom mounted_list)
     = Done [mounted_item ''A'' 1, mounted_item ''C'' 3]
         (emit (Remove (Some (PElement 2))) (result_dom mounted_list))" by simp
  with a b c m e v w show ?thesis by blast
qed

subsection \<open>Lifecycle hooks\<close>

lemma wrappedHook_never_throws: "fst (wrappedHook t g w) = None"
  by (simp add: wrappedHook_def split: prod.splits option.splits)

lemma wrappedHook_logs:
  "g w = (Some err, w') \<Longrightarrow>
   console (snd (wrappedHook t g w)) = console w' @ [ConsoleError (''Error in '' @ hook_key t @ '' hook:'') err]"
  by (simp add: wrappedHook_def)

lemma run_hooks_wrapped:
  "(\<forall>h \<in> set hs. \<exists>g. h = wrappedHook t g) \<Longrightarrow> run_hooks hs w = (None, after_all hs w)"
proof (induction hs arbitrary: w)
  case Nil
  then show ?case by (simp add: after_all_def)
next
  case (Cons h hs)
  then obtain g where h: "h = wrappedHook t g" by auto
  obtain w' where hw: "h w = (None, w')"
    using wrappedHook_never_throws [of t g w] h by (cases "h w") auto
  from Cons have "run_hooks hs w' = (None, after_all hs w')" by simp
  with hw show ?case by (simp add: after_all_def)
qed

lemma callHook_injected:
  "hooks_injected inst \<Longrightarrow> callHook inst t w = (None, after_all (hooks_for inst t) w)"
  by (auto simp: callHook_def hooks_for_def hooks_injected_def after_all_def
           intro!: run_hooks_wrapped [unfolded after_all_def] split: option.splits)

lemma fresh_hooks_injected: "hooks_injected createComponentInstance"
  by (simp add: hooks_injected_def createComponentInstance_def)

lemma hooks_injected_push:
  assumes "hooks_injected inst"
  shows "hooks_injected
           (inst\<lparr>hook_lists := (hook_lists inst)
              (t \<mapsto> (case hook_lists inst t of Some hs \<Rightarrow> hs | None \<Rightarrow> []) @ [wrappedHook t g])\<rparr>)"
  unfolding hooks_injected_def
proof (intro allI impI ballI)
  fix t' hs h
  assume hs: "hook_lists (inst\<lparr>hook_lists := (hook_lists inst)
              (t \<mapsto> (case hook_lists inst t of Some hs \<Rightarrow> hs | None \<Rightarrow> []) @ [wrappedHook t g])\<rparr>) t'
              = Some hs" and h: "h \<in> set hs"
  show "\<exists>g. h = wrappedHook t' g"
  proof (cases "t' = t")
    case True
    with hs have "hs = (case hook_lists inst t of Some hs \<Rightarrow> hs | None \<Rightarrow> []) @ [wrappedHook t g]"
      by simp
    with h have "h = wrappedHook t g \<or> (\<exists>old. hook_lists inst t = Some old \<and> h \<in> set old)"
      by (auto split: option.splits)
    with assms True show ?thesis by (auto simp: hooks_injected_def)
  next
    case False
    with hs have "hook_lists inst t' = Some hs" by simp
    with assms h show ?thesis by (auto simp: hooks_injected_def)
  qed
qed

lemma injectHook_keeps_injected:
  assumes "\<forall>i. hooks_injected (instances cs i)"
  shows "\<forall>i. hooks_injected (instances (injectHook t g target cs) i)"
proof (cases "case target of Some i \<Rightarrow> Some i | None \<Rightarrow> currentInstance cs")
  case None
  with assms show ?thesis by (simp add: injectHook_def)
next
  case (Some i)
  show ?thesis
  proof
    fix j
    show "hooks_injected (instances (injectHook t g target cs) j)"
    proof (cases "j = i")
      case True
      with Some hooks_injected_push [of "instances cs i" t g] assms show ?thesis
        by (simp add: injectHook_def Let_def)
    next
      case False
      with Some assms show ?thesis by (simp add: injectHook_def Let_def)
    qed
  qed
qed

text \<open>
  C9. When every stored hook was registered through \<open>injectHook\<close>, \<open>callHook\<close> never
  throws and runs every hook of the phase in order, whatever each hook throws; a thrown
  error is logged with the phase (\<open>Error in <type> hook:\<close>); and the mount, update and
  unmount sequences complete, with both phases' hooks run, whenever their render, patch or
  unmount step does.
\<close>

theorem hook_errors_contained:
  assumes "hooks_injected inst"
  shows "callHook inst t w = (None, after_all (hooks_for inst t) w) \<and>
         (\<forall>g err w'. g w = (Some err, w') \<longrightarrow>
            wrappedHook t g w =
              (None, w'\<lparr>console := console w' @ [ConsoleError (''Error in '' @ hook_key t @ '' hook:'') err]\<rparr>)) \<and>
         (\<not> isMounted inst \<and> fst (rp (after_all (hooks_for inst BEFORE_MOUNT) w)) = None \<longrightarrow>
            componentUpdateFn inst rp w =
              (None, True,
               after_all (hooks_for inst MOUNTED)
                 (snd (rp (after_all (hooks_for inst BEFORE_MOUNT) w))))) \<and>
         (isMounted inst \<and> fst (rp (after_all (hooks_for inst BEFORE_UPDATE) w)) = None \<longrightarrow>
            componentUpdateFn inst rp w =
              (None, True,
               after_all (hooks_for inst UPDATED)
                 (snd (rp (after_all (hooks_for inst BEFORE_UPDATE) w))))) \<and>
         (fst (um (after_all (hooks_for inst BEFORE_UNMOUNT) w)) = None \<longrightarrow>
            unmountComponentHooks inst um w =
              (None, after_all (hooks_for inst UNMOUNTED)
                       (snd (um (after_all (hooks_for inst BEFORE_UNMOUNT) w)))))"
  using assms
  by (auto simp: callHook_injected componentUpdateFn_def unmountComponentHooks_def and_then_def
                 wrappedHook_def split: prod.splits option.splits)

theorem hook_errors_contained_witness:
  "hooks_injected demo_instance \<and> \<not> isMounted demo_instance \<and>
   length (hooks_for demo_instance MOUNTED) = 3 \<and>
   callHook demo_instance MOUNTED (cworld demo_cstate)
     = (None, \<lparr>console = [ConsoleError ''Error in m hook:'' (VStr ''boom'')], user = 3\<rparr>) \<and>
   componentUpdateFn demo_instance demo_render (cworld demo_cstate)
     = (None, True,
        \<lparr>console = [ConsoleError ''Error in bm hook:'' (VStr ''early''),
                    ConsoleError ''Error in m hook:'' (VStr ''boom'')],
         user = 104\<rparr>) \<and>
   unmountComponentHooks demo_instance demo_render (cworld demo_cstate)
     = (None, \<lparr>console = [], user = 100\<rparr>)"
proof -
  have inj: "hooks_injected demo_instance"
    unfolding demo_instance_def demo_cstate_def
    by (intro injectHook_keeps_injected [rule_format]) (simp add: fresh_hooks_injected)
  have nm: "\<not> isMounted demo_instance" by code_simp
  have len: "length (hooks_for demo_instance MOUNTED) = 3" by code_simp
  have a: "after_all (hooks_for demo_instance MOUNTED) (cworld demo_cstate)
     = \<lparr>console = [ConsoleError ''Error in m hook:'' (VStr ''boom'')], user = 3\<rparr>" by code_simp
  have b: "fst (demo_render (after_all (hooks_for demo_instance BEFORE_MOUNT) (cworld demo_cstate))) = None"
    by code_simp
  have c: "after_all (hooks_for demo_instance MOUNTED)
             (snd (demo_render (after_all (hooks_for demo_instance BEFORE_MOUNT) (cworld demo_cstate))))
     = \<lparr>console = [ConsoleError ''Error in bm hook:'' (VStr ''early''),
                    ConsoleError ''Error in m hook:'' (VStr ''boom'')],
         user = 104\<rparr>" by code_simp
  have d: "fst (demo_render (after_all (hooks_for demo_instance BEFORE_UNMOUNT) (cworld demo_cstate))) = None"
    by code_simp
  have e: "after_all (hooks_for demo_instance UNMOUNTED)
             (snd (demo_render (after_all (hooks_for demo_instance BEFORE_UNMOUNT) (cworld demo_cstate))))
     = \<lparr>console = [], user = 100\<rparr>" by code_simp
  note inst = hook_errors_contained [OF inj, of _ "cworld demo_cstate" demo_render demo_render]
  from inst [of MOUNTED] a have p1: "callHook demo_instance MOUNTED (cworld demo_cstate)
     = (None, \<lparr>console = [ConsoleError ''Error in m hook:'' (VStr ''boom'')], user = 3\<rparr>)" by simp
  from inst [of MOUNTED] nm b c have p2: "componentUpdateFn demo_instance demo_render (cworld demo_cstate)
     = (None, True,
        \<lparr>console = [ConsoleError ''Error in bm hook:'' (VStr ''early''),
                    ConsoleError ''Error in m hook:'' (VStr ''boom'')],
         user = 104\<rparr>)" by simp
  from inst [of MOUNTED] d e have p3: "unmountComponentHooks demo_instance demo_render (cworld demo_cstate)
     = (None, \<lparr>console = [], user = 100\<rparr>)" by simp
  from inj nm len p1 p2 p3 show ?thesis by blast
qed

subsection \<open>Reactive wrapping\<close>

lemma strict_eq_imp_eq: "strict_eq a b \<Longrightarrow> a = b"
  by (cases a; cases b) simp_all

lemma reactive_heap: "reactive x s = (r, s') \<Longrightarrow> heap s' = heap s"
  by (auto simp: reactive_def log_def Let_def split: if_splits jsval.splits option.splits)

lemma reactive_object_result: "isObject x \<Longrightarrow> reactive x s = (r, s') \<Longrightarrow> isObject r"
  by (auto simp: reactive_def Let_def split: if_splits jsval.splits option.splits)

text \<open>
  C8. Reactive wrapping is idempotent and memoized: for every object \<open>x\<close>, wrapping it
  twice gives the same proxy (\<open>reactive(x) === reactive(x)\<close>), and wrapping the result
  again returns it unchanged (\<open>reactive(reactive(x)) === reactive(x)\<close>); neither of the
  later calls changes the state.
\<close>

theorem reactive_idempotent_memoized:
  assumes "isObject x"
      and "reactive x s = (r1, s1)"
      and "reactive x s1 = (r2, s2)"
      and "reactive r1 s1 = (r3, s3)"
  shows "strict_eq r2 r1 \<and> strict_eq r3 r1 \<and> s2 = s1 \<and> s3 = s1"
  using assms
  by (cases x) (auto simp: reactive_def isReactive_def raw_get_def Let_def split: if_splits option.splits)

subsection \<open>Evaluation: what every expression preserves\<close>

lemma bind_okE:
  assumes "bind_ok r f = Some (out, s')"
  obtains (thrown) x where "r = Some (Thrown x, s')" "out = Thrown x"
        | (ok) v s1 where "r = Some (Ok v, s1)" "f v s1 = Some (out, s')"
  using assms by (auto simp: bind_ok_def split: option.splits outcome.splits prod.splits)

lemma eval_rel:
  assumes ev: "eval n e s = Some (out, s')"
    and refl: "\<And>s. R s s"
    and trans: "\<And>a b c. R a b \<Longrightarrow> R b c \<Longrightarrow> R a c"
    and p_track: "\<And>t k s. R s (track t k s)"
    and p_reactive: "\<And>x s. R s (snd (reactive x s))"
    and p_set: "\<And>ob k v s. R s (raw_set ob k v s)"
    and p_delete: "\<And>ob k s. R s (raw_delete ob k s)"
    and p_log: "\<And>ev s. R s (log ev s)"
    and p_sym: "\<And>m s. R s (s\<lparr>nextSym := m\<rparr>)"
    and p_clean: "\<And>c v s. R s (set_computed c ((computeds s c)\<lparr>c_value := v, c_dirty := False\<rparr>) s)"
    and p_dirty: "\<And>c s. R s (set_computed c ((computeds s c)\<lparr>c_dirty := True\<rparr>) s)"
    and p_stop: "\<And>e s. R s (stop_effect e s)"
    and p_run: "\<And>e s s2. R (log (EvFn e) (run_enter e s)) s2 \<Longrightarrow> R s (run_finally s2)"
  shows "R s s'"
  using ev
proof (induction n arbitrary: e s out s')
  case 0
  then show ?case by simp
next
  case (Suc n)
  note IH = Suc.IH
  have IH': "\<And>e s out s' a. eval n e s = Some (out, s') \<Longrightarrow> R a s \<Longrightarrow> R a s'"
    using IH trans by blast
  have c_track: "\<And>a t k s. R a s \<Longrightarrow> R a (track t k s)" using p_track trans by blast
  have c_set: "\<And>a ob k v s. R a s \<Longrightarrow> R a (raw_set ob k v s)" using p_set trans by blast
  have c_delete: "\<And>a ob k s. R a s \<Longrightarrow> R a (raw_delete ob k s)" using p_delete trans by blast
  have c_log: "\<And>a ev s. R a s \<Longrightarrow> R a (log ev s)" using p_log trans by blast
  have c_clean: "\<And>a c v s. R a s \<Longrightarrow> R a (set_computed c ((computeds s c)\<lparr>c_value := v, c_dirty := False\<rparr>) s)"
    using p_clean trans by blast
  have c_dirty: "\<And>a c s. R a s \<Longrightarrow> R a (set_computed c ((computeds s c)\<lparr>c_dirty := True\<rparr>) s)"
    using p_dirty trans by blast
  have c_stop: "\<And>a e s. R a s \<Longrightarrow> R a (stop_effect e s)" using p_stop trans by blast
  have c_run: "\<And>a e s s2. R a s \<Longrightarrow> R (log (EvFn e) (run_enter e s)) s2 \<Longrightarrow> R a (run_finally s2)"
    using p_run trans by blast
  have c_reactive: "\<And>a x s v s'. reactive x s = (v, s') \<Longrightarrow> R a s \<Longrightarrow> R a s'"
    by (metis p_reactive snd_conv trans)
  have c_pg: "\<And>a p k s v s'. proxy_get p k s = (v, s') \<Longrightarrow> R a s \<Longrightarrow> R a s'"
    by (auto simp: proxy_get_def Let_def split: if_splits intro: c_track c_reactive)
  have c_ph: "\<And>a p k s v s'. proxy_has p k s = (v, s') \<Longrightarrow> R a s \<Longrightarrow> R a s'"
    by (auto simp: proxy_has_def Let_def intro: c_track)
  have c_po: "\<And>a p s v s'. proxy_ownKeys p s = (v, s') \<Longrightarrow> R a s \<Longrightarrow> R a s'"
    using p_sym by (auto simp: proxy_ownKeys_def Let_def intro!: c_track intro: trans)
  note rules = IH' refl c_track c_set c_delete c_log c_clean c_dirty c_stop c_run c_reactive c_pg c_ph c_po
  show ?case
  proof (cases e)
    case (TriggerEffects es)
    with Suc.prems show ?thesis
      by (cases es; auto elim!: bind_okE simp: Let_def split: if_splits; blast intro: rules)
  next
    case (Run e1)
    with Suc.prems show ?thesis
      by (auto simp: finally_pop_def split: if_splits option.splits prod.splits; blast intro: rules)
  next
    case (Lit v)
    with Suc.prems show ?thesis
      by (auto elim!: bind_okE simp: Let_def
         split: if_splits jsval.splits option.splits prod.splits sched.splits; blast intro: rules)
  next
    case (Seq a b)
    with Suc.prems show ?thesis
      by (auto elim!: bind_okE simp: Let_def
         split: if_splits jsval.splits option.splits prod.splits sched.splits; blast intro: rules)
  next
    case (Cond c a b)
    with Suc.prems show ?thesis
      by (auto elim!: bind_okE simp: Let_def
         split: if_splits jsval.splits option.splits prod.splits sched.splits; blast intro: rules)
  next
    case (Op2 f a b)
    with Suc.prems show ?thesis
      by (auto elim!: bind_okE simp: Let_def
         split: if_splits jsval.splits option.splits prod.splits sched.splits; blast intro: rules)
  next
    case (Throw a)
    with Suc.prems show ?thesis
      by (auto elim!: bind_okE simp: Let_def
         split: if_splits jsval.splits option.splits prod.splits sched.splits; blast intro: rules)
  next
    case (PropGet a k)
    with Suc.prems show ?thesis
      by (auto elim!: bind_okE simp: Let_def
         split: if_splits jsval.splits option.splits prod.splits sched.splits; blast intro: rules)
  next
    case (PropSet a k b)
    with Suc.prems show ?thesis
      by (auto elim!: bind_okE simp: Let_def
         split: if_splits jsval.splits option.splits prod.splits sched.splits; blast intro: rules)
  next
    case (PropHas k a)
    with Suc.prems show ?thesis
      by (auto elim!: bind_okE simp: Let_def
         split: if_splits jsval.splits option.splits prod.splits sched.splits; blast intro: rules)
  next
    case (OwnKeys a)
    with Suc.prems show ?thesis
      by (auto elim!: bind_okE simp: Let_def
         split: if_splits jsval.splits option.splits prod.splits sched.splits; blast intro: rules)
  next
    case (PropDelete a k)
    with Suc.prems show ?thesis
      by (auto elim!: bind_okE simp: Let_def
         split: if_splits jsval.splits option.splits prod.splits sched.splits; blast intro: rules)
  next
    case (Reactive a)
    with Suc.prems show ?thesis
      by (auto elim!: bind_okE simp: Let_def
         split: if_splits jsval.splits option.splits prod.splits sched.splits; blast intro: rules)
  next
    case (ComputedValue c)
    with Suc.prems show ?thesis
      by (auto elim!: bind_okE simp: Let_def
         split: if_splits jsval.splits option.splits prod.splits sched.splits; blast intro: rules)
  next
    case (Stop e1)
    with Suc.prems show ?thesis
      by (auto elim!: bind_okE simp: Let_def
         split: if_splits jsval.splits option.splits prod.splits sched.splits; blast intro: rules)
  next
    case (Track t k)
    with Suc.prems show ?thesis
      by (auto elim!: bind_okE simp: Let_def
         split: if_splits jsval.splits option.splits prod.splits sched.splits; blast intro: rules)
  next
    case (Trigger t k)
    with Suc.prems show ?thesis
      by (auto elim!: bind_okE simp: Let_def
         split: if_splits jsval.splits option.splits prod.splits sched.splits; blast intro: rules)
  next
    case (CallScheduler e1)
    with Suc.prems show ?thesis
      by (auto elim!: bind_okE simp: Let_def
         split: if_splits jsval.splits option.splits prod.splits sched.splits; blast intro: rules)
  qed
qed

lemma frame_refl: "frame s s"
  by (simp add: frame_def)

lemma frame_trans: "frame a b \<Longrightarrow> frame b c \<Longrightarrow> frame a c"
  unfolding frame_def stack_ok_def by (auto; metis)

lemma cleanup_static:
  "fn (effects (cleanupEffect e s) x) = fn (effects s x)"
  "scheduler (effects (cleanupEffect e s) x) = scheduler (effects s x)"
  "active (effects (cleanupEffect e s) x) = active (effects s x)"
  "computeds (cleanupEffect e s) = computeds s"
  "trace (cleanupEffect e s) = trace s"
  "effectStack (cleanupEffect e s) = effectStack s"
  "activeEffect (cleanupEffect e s) = activeEffect s"
  "nextProxy (cleanupEffect e s) = nextProxy s"
  "proxyTarget (cleanupEffect e s) = proxyTarget s"
  "heap (cleanupEffect e s) = heap s"
  by (simp_all add: cleanupEffect_def)

lemma frame_track: "frame s (track t k s)"
  by (auto simp: frame_def track_def log_def Let_def split: option.splits)

lemma frame_reactive: "frame s (snd (reactive x s))"
  by (auto simp: frame_def reactive_def log_def Let_def split: jsval.splits option.splits)

lemma frame_stop: "frame s (stop_effect e s)"
  by (auto simp: frame_def stop_effect_def Let_def cleanup_static)

lemma frame_run:
  assumes "frame (log (EvFn e) (run_enter e s)) s2"
  shows "frame s (run_finally s2)"
proof -
  have ok: "stack_ok (log (EvFn e) (run_enter e s))"
    by (simp add: stack_ok_def log_def run_enter_def cleanup_static stack_top_def)
  from assms ok show ?thesis
    unfolding frame_def
    by (auto simp: run_finally_def log_def run_enter_def cleanup_static stack_ok_def)
qed

lemma frame_simple:
  "frame s (raw_set ob k v s)"
  "frame s (raw_delete ob k s)"
  "frame s (log ev s)"
  "frame s (s\<lparr>nextSym := m\<rparr>)"
  "frame s (set_computed c ((computeds s c)\<lparr>c_value := v, c_dirty := False\<rparr>) s)"
  "frame s (set_computed c ((computeds s c)\<lparr>c_dirty := True\<rparr>) s)"
  by (simp_all add: frame_def raw_set_def raw_delete_def log_def set_computed_def)

lemma eval_frame: "eval n e s = Some (out, s') \<Longrightarrow> frame s s'"
  by (rule eval_rel [where R = frame, OF _ frame_refl frame_trans frame_track frame_reactive
        frame_simple frame_stop frame_run])

subsection \<open>More fuel gives the same result\<close>

lemma bind_ok_mono:
  assumes "bind_ok r f = Some x"
    and "\<And>y. r = Some y \<Longrightarrow> r' = Some y"
    and "\<And>v s1. r = Some (Ok v, s1) \<Longrightarrow> f v s1 = Some x \<Longrightarrow> f' v s1 = Some x"
  shows "bind_ok r' f' = Some x"
  using assms by (auto simp: bind_ok_def split: option.splits outcome.splits prod.splits)

lemma eval_mono_add: "eval n e s = Some (out, s') \<Longrightarrow> eval (n + k) e s = Some (out, s')"
proof (induction n arbitrary: e s out s')
  case 0
  then show ?case by simp
next
  case (Suc n)
  note IH = Suc.IH
  show ?case
  proof (cases e)
    case (TriggerEffects es)
    with Suc.prems show ?thesis
      by (cases es) (auto elim!: bind_ok_mono intro: IH split: if_splits)
  next
    case (Run e1)
    with Suc.prems show ?thesis
      by (auto simp: finally_pop_def dest!: IH split: if_splits option.splits prod.splits)
  next
    case (Lit v)
    with Suc.prems show ?thesis by auto
  next
    case (Seq a b)
    with Suc.prems show ?thesis by (auto elim!: bind_ok_mono intro: IH )
  next
    case (Cond c a b)
    with Suc.prems show ?thesis by (auto elim!: bind_ok_mono intro: IH split: if_splits)
  next
    case (Op2 f a b)
    with Suc.prems show ?thesis by (auto elim!: bind_ok_mono intro: IH )
  next
    case (Throw a)
    with Suc.prems show ?thesis by (auto elim!: bind_ok_mono intro: IH )
  next
    case (PropGet a k)
    with Suc.prems show ?thesis by (auto elim!: bind_ok_mono intro: IH )
  next
    case (PropSet a k b)
    with Suc.prems show ?thesis
      by (auto elim!: bind_ok_mono intro: IH simp: Let_def split: jsval.splits if_splits)
  next
    case (PropHas k a)
    with Suc.prems show ?thesis by (auto elim!: bind_ok_mono intro: IH )
  next
    case (OwnKeys a)
    with Suc.prems show ?thesis by (auto elim!: bind_ok_mono intro: IH )
  next
    case (PropDelete a k)
    with Suc.prems show ?thesis
      by (auto elim!: bind_ok_mono intro: IH simp: Let_def split: jsval.splits if_splits)
  next
    case (Reactive a)
    with Suc.prems show ?thesis by (auto elim!: bind_ok_mono intro: IH )
  next
    case (ComputedValue c)
    with Suc.prems show ?thesis
      by (auto elim!: bind_ok_mono intro: IH simp: Let_def split: if_splits)
  next
    case (Stop e1)
    with Suc.prems show ?thesis by auto
  next
    case (Track t k)
    with Suc.prems show ?thesis by auto
  next
    case (Trigger t k)
    with Suc.prems show ?thesis by (auto dest!: IH split: option.splits)
  next
    case (CallScheduler e1)
    with Suc.prems show ?thesis by (auto dest!: IH split: option.splits sched.splits if_splits)
  qed
qed

lemma eval_mono: "eval n e s = Some r \<Longrightarrow> n \<le> m \<Longrightarrow> eval m e s = Some r"
  using eval_mono_add [of n e s "fst r" "snd r" "m - n"] by simp

subsection \<open>The trigger loop\<close>

lemma frame_stack_ok: "frame s s' \<Longrightarrow> stack_ok s \<Longrightarrow> stack_ok s' \<and> activeEffect s' = activeEffect s"
  by (auto simp: frame_def stack_ok_def)

lemma log_stack_ok [simp]: "stack_ok (log ev s) = stack_ok s"
  by (simp add: stack_ok_def log_def)

lemma log_active [simp]: "activeEffect (log ev s) = activeEffect s"
  by (simp add: log_def)

lemma eval_stack_ok:
  "eval n e s = Some (out, s') \<Longrightarrow> stack_ok s \<Longrightarrow> stack_ok s' \<and> activeEffect s' = activeEffect s"
  using eval_frame frame_stack_ok by blast

lemma trigger_without_active:
  assumes "stack_ok s" and "activeEffect s = Some c"
    and "eval n (TriggerEffects dep) s = Some r"
  shows "eval n (TriggerEffects (removeAll c dep)) s = Some r"
  using assms
proof (induction dep arbitrary: n s)
  case Nil
  then show ?case by simp
next
  case (Cons e es)
  from Cons.prems(3) obtain m where n: "n = Suc m" by (cases n) auto
  obtain out s' where r: "r = (out, s')" by (cases r)
  show ?case
  proof (cases "e = c")
    case True
    with Cons.prems n have "eval m (TriggerEffects es) s = Some r"
      by (simp add: bind_ok_def)
    from Cons.IH [OF Cons.prems(1,2) this] have "eval m (TriggerEffects (removeAll c es)) s = Some r" .
    then have "eval (Suc m) (TriggerEffects (removeAll c es)) s = Some r"
      by (rule eval_mono) simp
    with True n show ?thesis by simp
  next
    case False
    let ?X = "if scheduler (effects s e) \<noteq> None
              then eval m (CallScheduler e) (log (EvSched e) s)
              else eval m (Run e) (log (EvRun e) s)"
    from Cons.prems n False r
    have b: "bind_ok ?X (\<lambda>_ s1. eval m (TriggerEffects es) s1) = Some (out, s')"
      by simp
    have "bind_ok ?X (\<lambda>_ s1. eval m (TriggerEffects (removeAll c es)) s1) = Some (out, s')"
      using b
    proof (rule bind_ok_mono)
      fix v s1
      assume X: "?X = Some (Ok v, s1)" and rest: "eval m (TriggerEffects es) s1 = Some (out, s')"
      from X Cons.prems(1,2) have "stack_ok s1 \<and> activeEffect s1 = Some c"
        by (auto split: if_splits dest!: eval_stack_ok)
      with Cons.IH [of s1 m] rest r show "eval m (TriggerEffects (removeAll c es)) s1 = Some (out, s')"
        by simp
    qed simp
    with Cons.prems n False r show ?thesis by simp
  qed
qed

lemma trigger_with_active:
  "stack_ok s \<Longrightarrow> activeEffect s = Some c \<Longrightarrow>
   eval n (TriggerEffects (removeAll c dep)) s = Some r \<Longrightarrow>
   eval (n + length dep) (TriggerEffects dep) s = Some r"
proof (induction dep arbitrary: n s)
  case Nil
  then show ?case by simp
next
  case (Cons e es)
  obtain out s' where r: "r = (out, s')" by (cases r)
  show ?case
  proof (cases "e = c")
    case True
    with Cons.prems have "eval n (TriggerEffects (removeAll c es)) s = Some r" by simp
    from Cons.IH [OF Cons.prems(1,2) this]
    have "eval (n + length es) (TriggerEffects es) s = Some r" .
    with True Cons.prems(2) have "eval (Suc (n + length es)) (TriggerEffects (e # es)) s = Some r"
      by (simp add: bind_ok_def)
    then show ?thesis by simp
  next
    case False
    from Cons.prems(3) obtain m where n: "n = Suc m" by (cases n) auto
    define k where "k = m + Suc (length es)"
    let ?X = "\<lambda>j. if scheduler (effects s e) \<noteq> None
              then eval j (CallScheduler e) (log (EvSched e) s)
              else eval j (Run e) (log (EvRun e) s)"
    from Cons.prems n False r
    have b: "bind_ok (?X m) (\<lambda>_ s1. eval m (TriggerEffects (removeAll c es)) s1) = Some (out, s')"
      by simp
    have "bind_ok (?X k) (\<lambda>_ s1. eval k (TriggerEffects es) s1) = Some (out, s')"
      using b
    proof (rule bind_ok_mono)
      fix y
      assume "?X m = Some y"
      moreover have "m \<le> k" by (simp add: k_def)
      ultimately show "?X k = Some y"
        by (auto split: if_splits intro: eval_mono)
    next
      fix v s1
      assume X: "?X m = Some (Ok v, s1)"
        and rest: "eval m (TriggerEffects (removeAll c es)) s1 = Some (out, s')"
      from X Cons.prems(1,2) have "stack_ok s1" "activeEffect s1 = Some c"
        by (auto split: if_splits dest!: eval_stack_ok)
      from Cons.IH [OF this] rest r
      have "eval (m + length es) (TriggerEffects es) s1 = Some (out, s')" by simp
      then show "eval k (TriggerEffects es) s1 = Some (out, s')"
        by (rule eval_mono) (simp add: k_def)
    qed
    with Cons.prems(2) False r have "eval (Suc k) (TriggerEffects (e # es)) s = Some r"
      by simp
    moreover have "Suc k = n + length (e # es)" by (simp add: k_def n)
    ultimately show ?thesis by simp
  qed
qed

text \<open>
  C6 (as amended). A trigger issued while \<open>C\<close> is the running computation (the top of
  the effect stack) is not delivered to \<open>C\<close>: the loop over the subscribers behaves
  exactly as if \<open>C\<close> were not among them. Whatever the loop over all subscribers returns,
  the loop without \<open>C\<close> returns too; and whenever the loop without \<open>C\<close> returns, the
  loop over all subscribers returns the same (it needs one more step per subscriber).
\<close>

theorem trigger_skips_running_effect:
  assumes "stack_ok s" and "activeEffect s = Some c"
  shows "(eval n (TriggerEffects dep) s = Some r
            \<longrightarrow> eval n (TriggerEffects (removeAll c dep)) s = Some r) \<and>
         (eval n (TriggerEffects (removeAll c dep)) s = Some r
            \<longrightarrow> eval (n + length dep) (TriggerEffects dep) s = Some r)"
  using assms trigger_without_active trigger_with_active by blast

lemma frame_trace: "frame s s' \<Longrightarrow> \<exists>evs. trace s' = trace s @ evs"
  by (simp add: frame_def)

lemma eval_trace: "eval n e s = Some (out, s') \<Longrightarrow> \<exists>evs. trace s' = trace s @ evs"
  using eval_frame frame_trace by blast

lemma notified_later: "notified c s s1 \<Longrightarrow> \<exists>evs. trace s2 = trace s1 @ evs \<Longrightarrow> notified c s s2"
  by (auto simp: notified_def)

lemma notified_earlier: "\<exists>evs. trace s1 = trace s @ evs \<Longrightarrow> notified c s1 s2 \<Longrightarrow> notified c s s2"
  by (auto simp: notified_def)

lemma notified_log_run: "\<exists>evs. trace s' = trace (log (EvRun c) s) @ evs \<Longrightarrow> notified c s s'"
  by (auto simp: notified_def log_def)

lemma notified_log_sched: "\<exists>evs. trace s' = trace (log (EvSched c) s) @ evs \<Longrightarrow> notified c s s'"
  by (auto simp: notified_def log_def)

lemma trigger_effects_notifies:
  assumes "stack_ok s" and "activeEffect s \<noteq> Some c" and "c \<in> set dep"
    and "eval n (TriggerEffects dep) s = Some (Ok v, s')"
  shows "notified c s s'"
  using assms
proof (induction dep arbitrary: n s)
  case Nil
  then show ?case by simp
next
  case (Cons e es)
  from Cons.prems(4) obtain m where n: "n = Suc m" by (cases n) auto
  let ?X = "if Some e \<noteq> activeEffect s
            then (if scheduler (effects s e) \<noteq> None
                  then eval m (CallScheduler e) (log (EvSched e) s)
                  else eval m (Run e) (log (EvRun e) s))
            else Some (Ok VUndef, s)"
  from Cons.prems(4) n
  have "bind_ok ?X (\<lambda>_ s1. eval m (TriggerEffects es) s1) = Some (Ok v, s')" by simp
  then obtain w s1 where X: "?X = Some (Ok w, s1)" and rest: "eval m (TriggerEffects es) s1 = Some (Ok v, s')"
    by (auto elim!: bind_okE)
  have ok1: "stack_ok s1 \<and> activeEffect s1 = activeEffect s"
    using X Cons.prems(1) by (auto split: if_splits dest!: eval_stack_ok)
  have tr1: "\<exists>evs. trace s1 = trace s @ evs"
    using X by (auto split: if_splits dest!: eval_trace simp: log_def)
  show ?case
  proof (cases "e = c")
    case True
    with X Cons.prems(2) have "notified c s s1"
      by (auto split: if_splits dest!: eval_trace intro: notified_log_run notified_log_sched)
    with rest show ?thesis by (blast intro: notified_later eval_trace)
  next
    case False
    with Cons.prems(3) have "c \<in> set es" by simp
    with Cons.IH [of s1 m] ok1 Cons.prems(2) rest have "notified c s1 s'" by simp
    with tr1 show ?thesis by (blast intro: notified_earlier)
  qed
qed

lemma reactive_targetMap: "targetMap (snd (reactive x s)) = targetMap s"
  by (auto simp: reactive_def log_def Let_def split: jsval.splits option.splits)

lemma reactive_trace_keep: "isObject x \<Longrightarrow> trace (snd (reactive x s)) = trace s"
  by (auto simp: reactive_def log_def Let_def split: jsval.splits option.splits)

lemma track_subscribes: "activeEffect s = Some c \<Longrightarrow> c \<in> set (subscribers (track t k s) t k)"
  by (auto simp: track_def subscribers_def log_def Let_def split: option.splits)

lemma proxy_get_subscribes:
  assumes "activeEffect s = Some c" and "k \<noteq> IS_REACTIVE"
  shows "c \<in> set (subscribers (snd (proxy_get p k s)) (TObj (proxyTarget s p)) k)"
  using assms track_subscribes [of s c "TObj (proxyTarget s p)" k]
  by (simp add: proxy_get_def Let_def subscribers_def reactive_targetMap)

lemma subscribers_log [simp]: "subscribers (log ev s) t k = subscribers s t k"
  by (simp add: subscribers_def log_def)

lemma subscribers_raw_set [simp]: "subscribers (raw_set ob k v s) t k' = subscribers s t k'"
  by (simp add: subscribers_def raw_set_def)

lemma raw_set_stack_ok [simp]: "stack_ok (raw_set ob k v s) = stack_ok s"
  by (simp add: stack_ok_def raw_set_def)

lemma raw_set_simps [simp]:
  "activeEffect (raw_set ob k v s) = activeEffect s"
  "trace (raw_set ob k v s) = trace s"
  "targetMap (raw_set ob k v s) = targetMap s"
  by (simp_all add: raw_set_def)

lemma log_simps [simp]:
  "targetMap (log ev s) = targetMap s"
  "trace (log ev s) = trace s @ [ev]"
  by (simp_all add: log_def)

lemma trigger_notifies:
  assumes "stack_ok s" and "activeEffect s \<noteq> Some c" and "c \<in> set (subscribers s t k)"
    and "eval n (Trigger t k) s = Some (Ok v, s')"
  shows "notified c s s'"
proof -
  from assms(4) obtain m where n: "n = Suc m" by (cases n) auto
  from assms(3) obtain dm dep where tm: "targetMap s t = Some dm" "dm k = Some dep" "c \<in> set dep"
    by (auto simp: subscribers_def split: option.splits; metis)
  with assms(4) n have "eval m (TriggerEffects dep) (log (EvTrigger t k) s) = Some (Ok v, s')" by simp
  from trigger_effects_notifies [OF _ _ tm(3) this] assms(1,2)
  have "notified c (log (EvTrigger t k) s) s'" by simp
  then show ?thesis by (auto simp: notified_def)
qed

text \<open>
  C1 (as amended). For every reactive object and every key other than the reserved marker
  \<open>__v_isReactive\<close>: a read through the proxy made while \<open>C\<close> is the active computation
  subscribes \<open>C\<close> to that object and key. A later assignment through the proxy, made while
  \<open>C\<close> is still subscribed and is not itself the active computation, notifies \<open>C\<close>
  (\<open>run\<close> or its scheduler) when the new value differs from the old one (\<open>!==\<close>) and the
  assignment completes; when the value is the same, nothing is triggered at all. The read,
  and the assignment of the same value, always return.
\<close>

theorem track_trigger_closure:
  "(activeEffect s = Some c \<and> k \<noteq> IS_REACTIVE \<and>
      eval n (PropGet (Lit (VProxy p)) k) s = Some (out, s1)
      \<longrightarrow> c \<in> set (subscribers s1 (TObj (proxyTarget s p)) k)) \<and>
   (stack_ok s2 \<and> activeEffect s2 \<noteq> Some c \<and>
      c \<in> set (subscribers s2 (TObj (proxyTarget s2 p)) k) \<and>
      \<not> strict_eq (raw_get s2 (proxyTarget s2 p) k) v \<and>
      eval m (PropSet (Lit (VProxy p)) k (Lit v)) s2 = Some (Ok w, s3)
      \<longrightarrow> notified c s2 s3) \<and>
   (strict_eq (raw_get s2 (proxyTarget s2 p) k) v \<and>
      eval m (PropSet (Lit (VProxy p)) k (Lit v)) s2 = Some (out', s3)
      \<longrightarrow> trace s3 = trace s2) \<and>
   (\<forall>j. \<exists>r. eval (Suc (Suc j)) (PropGet (Lit (VProxy p)) k) s = Some r) \<and>
   (strict_eq (raw_get s2 (proxyTarget s2 p) k) v
      \<longrightarrow> (\<forall>j. \<exists>r. eval (Suc (Suc j)) (PropSet (Lit (VProxy p)) k (Lit v)) s2 = Some r))"
proof (intro conjI impI allI)
  assume a: "activeEffect s = Some c \<and> k \<noteq> IS_REACTIVE \<and>
      eval n (PropGet (Lit (VProxy p)) k) s = Some (out, s1)"
  then obtain n2 where "n = Suc (Suc n2)"
    by (cases n; simp; cases "n - 1"; simp add: bind_ok_def)
  with a have "s1 = snd (proxy_get p k s)"
    by (auto simp: bind_ok_def split: prod.splits)
  with a show "c \<in> set (subscribers s1 (TObj (proxyTarget s p)) k)"
    by (simp add: proxy_get_subscribes)
next
  assume a: "stack_ok s2 \<and> activeEffect s2 \<noteq> Some c \<and>
      c \<in> set (subscribers s2 (TObj (proxyTarget s2 p)) k) \<and>
      \<not> strict_eq (raw_get s2 (proxyTarget s2 p) k) v \<and>
      eval m (PropSet (Lit (VProxy p)) k (Lit v)) s2 = Some (Ok w, s3)"
  then obtain m2 where m: "m = Suc (Suc m2)"
    by (cases m; simp; cases "m - 1"; simp add: bind_ok_def)
  let ?ob = "proxyTarget s2 p"
  from a m obtain u where "eval (Suc m2) (Trigger (TObj ?ob) k) (raw_set ?ob k v s2) = Some (Ok u, s3)"
    by (auto simp: bind_ok_def Let_def split: option.splits prod.splits outcome.splits)
  from trigger_notifies [OF _ _ _ this, of c] a
  have "notified c (raw_set ?ob k v s2) s3" by simp
  then show "notified c s2 s3" by (simp add: notified_def)
next
  assume a: "strict_eq (raw_get s2 (proxyTarget s2 p) k) v \<and>
      eval m (PropSet (Lit (VProxy p)) k (Lit v)) s2 = Some (out', s3)"
  then obtain m2 where m: "m = Suc (Suc m2)"
    by (cases m; simp; cases "m - 1"; simp add: bind_ok_def)
  with a show "trace s3 = trace s2"
    by (auto simp: bind_ok_def Let_def)
next
  fix j
  show "\<exists>r. eval (Suc (Suc j)) (PropGet (Lit (VProxy p)) k) s = Some r"
    by (simp add: bind_ok_def split: prod.splits)
next
  fix j
  assume "strict_eq (raw_get s2 (proxyTarget s2 p) k) v"
  then show "\<exists>r. eval (Suc (Suc j)) (PropSet (Lit (VProxy p)) k (Lit v)) s2 = Some r"
    by (simp add: bind_ok_def Let_def)
qed

subsection \<open>Cleanup and re-tracking\<close>

lemma subscribers_lookup: "subscribers s t k = dep_lookup (targetMap s) t k"
  by (simp add: subscribers_def dep_lookup_def)

lemma dep_lookup_delete:
  "dep_lookup (dep_delete e tk tm) t k =
     (if (t, k) = tk then removeAll e (dep_lookup tm t k) else dep_lookup tm t k)"
  by (cases tk) (auto simp: dep_lookup_def dep_delete_def split: option.splits)

lemma dep_lookup_fold:
  "dep_lookup (foldl (\<lambda>tm tk. dep_delete e tk tm) tm ds) t k =
     (if (t, k) \<in> set ds then removeAll e (dep_lookup tm t k) else dep_lookup tm t k)"
proof (induction ds arbitrary: tm)
  case Nil
  then show ?case by simp
next
  case (Cons d ds)
  show ?case by (simp add: Cons.IH dep_lookup_delete)
qed

lemma subscribers_cleanup:
  "subscribers (cleanupEffect e s) t k =
     (if (t, k) \<in> set (deps (effects s e)) then removeAll e (subscribers s t k)
      else subscribers s t k)"
  by (simp add: subscribers_lookup cleanupEffect_def dep_lookup_fold)

lemma cleanup_clears:
  "deps_ok s \<Longrightarrow> e \<notin> set (subscribers (cleanupEffect e s) t k)"
  by (auto simp: subscribers_cleanup deps_ok_def)

lemma cleanup_subset:
  "x \<in> set (subscribers (cleanupEffect e s) t k) \<Longrightarrow> x \<in> set (subscribers s t k)"
  by (auto simp: subscribers_cleanup split: if_splits)

lemma cleanup_deps_ok: "deps_ok s \<Longrightarrow> deps_ok (cleanupEffect e s)"
  unfolding deps_ok_def
proof (intro allI impI)
  fix x t k
  assume ok: "\<forall>e t k. e \<in> set (subscribers s t k) \<longrightarrow> (t, k) \<in> set (deps (effects s e))"
    and x: "x \<in> set (subscribers (cleanupEffect e s) t k)"
  from ok have "e \<notin> set (subscribers (cleanupEffect e s) t k)"
    by (intro cleanup_clears) (simp add: deps_ok_def)
  with x have "x \<noteq> e" by auto
  moreover from x have "x \<in> set (subscribers s t k)" by (rule cleanup_subset)
  ultimately show "(t, k) \<in> set (deps (effects (cleanupEffect e s) x))"
    using ok by (simp add: cleanupEffect_def)
qed

lemma subscribers_track:
  "subscribers (track t k s) t' k' =
     (case activeEffect s of
        None \<Rightarrow> subscribers s t' k'
      | Some e \<Rightarrow> if t' = t \<and> k' = k \<and> e \<notin> set (subscribers s t k)
                  then subscribers s t k @ [e] else subscribers s t' k')"
  by (auto simp: track_def subscribers_def log_def Let_def split: option.splits)

lemma trace_track:
  "trace (track t k s) =
     (case activeEffect s of None \<Rightarrow> trace s | Some e \<Rightarrow> trace s @ [EvTrack e t k])"
  by (auto simp: track_def log_def Let_def split: option.splits)

lemma deps_track:
  "deps (effects (track t k s) x) =
     (case activeEffect s of
        None \<Rightarrow> deps (effects s x)
      | Some e \<Rightarrow> if x = e \<and> e \<notin> set (subscribers s t k)
                  then deps (effects s x) @ [(t, k)] else deps (effects s x))"
  by (auto simp: track_def subscribers_def log_def Let_def split: option.splits)

lemma tracked_only_refl: "tracked_only s s"
  by (simp add: tracked_only_def)

lemma tracked_only_trans: "tracked_only a b \<Longrightarrow> tracked_only b c \<Longrightarrow> tracked_only a c"
  unfolding tracked_only_def by (auto; metis)

lemma tracked_only_track: "tracked_only s (track t k s)"
  unfolding tracked_only_def deps_ok_def
  by (cases "activeEffect s") (auto simp: subscribers_track trace_track deps_track split: if_splits)

lemma tracked_only_same:
  assumes "targetMap s' = targetMap s" and "\<And>x. deps (effects s' x) = deps (effects s x)"
    and "\<exists>evs. trace s' = trace s @ evs"
  shows "tracked_only s s'"
  using assms by (auto simp: tracked_only_def deps_ok_def subscribers_def)

lemma tracked_only_reactive: "tracked_only s (snd (reactive x s))"
  by (rule tracked_only_same)
     (auto simp: reactive_def log_def Let_def split: jsval.splits option.splits)

lemma tracked_only_simple:
  "tracked_only s (raw_set ob k v s)"
  "tracked_only s (raw_delete ob k s)"
  "tracked_only s (log ev s)"
  "tracked_only s (s\<lparr>nextSym := m\<rparr>)"
  "tracked_only s (set_computed c ((computeds s c)\<lparr>c_value := v, c_dirty := False\<rparr>) s)"
  "tracked_only s (set_computed c ((computeds s c)\<lparr>c_dirty := True\<rparr>) s)"
  by (rule tracked_only_same; simp add: raw_set_def raw_delete_def log_def set_computed_def)+

lemma tracked_only_cleanup: "tracked_only s (cleanupEffect e s)"
  by (auto simp: tracked_only_def cleanup_deps_ok cleanup_static dest: cleanup_subset)

lemma tracked_only_stop: "tracked_only s (stop_effect e s)"
proof (cases "active (effects s e)")
  case True
  have "tracked_only (cleanupEffect e s)
          ((cleanupEffect e s)\<lparr>effects := (effects (cleanupEffect e s))
             (e := (effects (cleanupEffect e s) e)\<lparr>active := False\<rparr>)\<rparr>)"
    by (rule tracked_only_same) auto
  with tracked_only_cleanup [of s e] True show ?thesis
    by (auto simp: stop_effect_def Let_def intro: tracked_only_trans)
next
  case False
  then show ?thesis by (simp add: stop_effect_def tracked_only_refl)
qed

lemma tracked_only_run:
  assumes "tracked_only (log (EvFn e) (run_enter e s)) s2"
  shows "tracked_only s (run_finally s2)"
proof -
  let ?s0 = "s\<lparr>effectStack := effectStack s @ [e], activeEffect := Some e\<rparr>"
  have a: "tracked_only s ?s0" by (rule tracked_only_same) auto
  have b: "tracked_only ?s0 (run_enter e s)"
    unfolding run_enter_def by (rule tracked_only_cleanup)
  have c: "tracked_only (run_enter e s) (log (EvFn e) (run_enter e s))"
    by (rule tracked_only_simple)
  have d: "tracked_only s2 (run_finally s2)"
    by (rule tracked_only_same) (auto simp: run_finally_def)
  from a b c assms d show ?thesis by (blast intro: tracked_only_trans)
qed

lemma eval_tracked_only: "eval n e s = Some (out, s') \<Longrightarrow> tracked_only s s'"
  by (rule eval_rel [where R = tracked_only, OF _ tracked_only_refl tracked_only_trans
        tracked_only_track tracked_only_reactive tracked_only_simple tracked_only_stop
        tracked_only_run])

lemma init_deps_ok: "deps_ok (init_state h)"
  by (simp add: deps_ok_def subscribers_def init_state_def)

lemma eval_deps_ok: "eval n e s = Some (out, s') \<Longrightarrow> deps_ok s \<Longrightarrow> deps_ok s'"
  by (drule eval_tracked_only) (auto simp: tracked_only_def)

lemma run_rebuilds_subscriptions:
  assumes "deps_ok s" and "active (effects s c)" and "eval n (Run c) s = Some (out, s')"
  shows "(\<forall>t k. c \<notin> set (subscribers (run_enter c s) t k)) \<and>
         (\<forall>t k. c \<in> set (subscribers s' t k) \<longrightarrow>
                 EvTrack c t k \<in> set (drop (length (trace s)) (trace s')))"
proof -
  let ?s0 = "s\<lparr>effectStack := effectStack s @ [c], activeEffect := Some c\<rparr>"
  have ok0: "deps_ok ?s0" using assms(1) by (simp add: deps_ok_def subscribers_def)
  then have clear: "\<And>t k. c \<notin> set (subscribers (run_enter c s) t k)"
    unfolding run_enter_def by (rule cleanup_clears)
  have ok1: "deps_ok (log (EvFn c) (run_enter c s))"
    using cleanup_deps_ok [OF ok0, of c] by (simp add: deps_ok_def subscribers_def run_enter_def log_def)
  from assms(3) obtain m where n: "n = Suc m" by (cases n) auto
  with assms obtain s2 where ev: "eval m (fn (effects s c)) (log (EvFn c) (run_enter c s)) = Some (out, s2)"
    and s': "s' = run_finally s2"
    by (auto simp: finally_pop_def split: option.splits prod.splits)
  from eval_tracked_only [OF ev] ok1 obtain evs where
    tr: "trace s2 = trace (log (EvFn c) (run_enter c s)) @ evs"
    and sub: "\<And>x t k. x \<in> set (subscribers s2 t k) \<Longrightarrow>
               x \<in> set (subscribers (log (EvFn c) (run_enter c s)) t k) \<or> EvTrack x t k \<in> set evs"
    unfolding tracked_only_def by blast
  have "\<And>t k. c \<in> set (subscribers s' t k) \<Longrightarrow> EvTrack c t k \<in> set (drop (length (trace s)) (trace s'))"
  proof -
    fix t k
    assume "c \<in> set (subscribers s' t k)"
    then have "c \<in> set (subscribers s2 t k)" by (simp add: s' subscribers_def run_finally_def)
    from sub [OF this] clear have "EvTrack c t k \<in> set evs" by simp
    moreover have "trace s' = trace s @ EvFn c # evs"
      using tr by (simp add: s' run_finally_def log_def run_enter_def cleanup_static)
    ultimately show "EvTrack c t k \<in> set (drop (length (trace s)) (trace s'))" by simp
  qed
  with clear show ?thesis by blast
qed

subsection \<open>Only a subscribed key notifies\<close>

lemma user_step: "user_code c e \<Longrightarrow> step_code c e"
  by (cases e) auto

lemma triggered_extends:
  assumes "triggered c a s" and "trace s' = trace s @ evs'"
  shows "triggered c a s'"
proof -
  from assms(1) obtain evs t k where "trace s = trace a @ evs" "EvTrigger t k \<in> set evs"
    "c \<in> set (subscribers a t k)" unfolding triggered_def by blast
  with assms(2) show ?thesis
    unfolding triggered_def by (intro exI [of _ "evs @ evs'"]) auto
qed

lemma follows_step:
  assumes "follows c a s" and "trace s' = trace s @ evs'"
    and "calm c s \<Longrightarrow> calm c s' \<and> EvFn c \<notin> set evs' \<and> EvRun c \<notin> set evs' \<and> EvSched c \<notin> set evs' \<and>
           (\<forall>t k. c \<in> set (subscribers s' t k) \<longrightarrow> c \<in> set (subscribers s t k))"
  shows "follows c a s'"
proof (cases "triggered c a s")
  case True
  with assms(2) show ?thesis by (auto simp: follows_def dest: triggered_extends)
next
  case False
  with assms(1) have "unnotified c a s" by (simp add: follows_def)
  then obtain evs where e: "trace s = trace a @ evs" "calm c s"
    "EvFn c \<notin> set evs" "EvRun c \<notin> set evs" "EvSched c \<notin> set evs"
    "\<forall>t k. c \<in> set (subscribers s t k) \<longrightarrow> c \<in> set (subscribers a t k)"
    unfolding unnotified_def by blast
  from assms(3) [OF e(2)] e assms(2) have "unnotified c a s'"
    unfolding unnotified_def by (intro exI [of _ "evs @ evs'"]) auto
  then show ?thesis by (simp add: follows_def)
qed

lemma follows_refl: "calm c s \<Longrightarrow> follows c s s"
  by (simp add: follows_def unnotified_def)

lemma calm_static:
  assumes "effects s' = effects s" "effectStack s' = effectStack s" "activeEffect s' = activeEffect s"
    and "\<forall>x. c_effect (computeds s' x) = c_effect (computeds s x)"
  shows "calm c s' = calm c s"
  using assms by (simp add: calm_def code_ok_def)

lemma follows_set: "follows c a s \<Longrightarrow> follows c a (raw_set ob k v s)"
  by (rule follows_step [where evs' = "[]"]) (auto simp: calm_def code_ok_def raw_set_def subscribers_def)

lemma follows_delete: "follows c a s \<Longrightarrow> follows c a (raw_delete ob k s)"
  by (rule follows_step [where evs' = "[]"])
     (auto simp: calm_def code_ok_def raw_delete_def subscribers_def)

lemma follows_sym: "follows c a s \<Longrightarrow> follows c a (s\<lparr>nextSym := m\<rparr>)"
  by (rule follows_step [where evs' = "[]"]) (auto simp: calm_def code_ok_def subscribers_def)

lemma follows_clean:
  "follows c a s \<Longrightarrow> follows c a (set_computed x ((computeds s x)\<lparr>c_value := v, c_dirty := False\<rparr>) s)"
  by (rule follows_step [where evs' = "[]"])
     (auto simp: calm_def code_ok_def set_computed_def subscribers_def)

lemma follows_dirty:
  "follows c a s \<Longrightarrow> follows c a (set_computed x ((computeds s x)\<lparr>c_dirty := True\<rparr>) s)"
  by (rule follows_step [where evs' = "[]"])
     (auto simp: calm_def code_ok_def set_computed_def subscribers_def)

lemma follows_log:
  "ev \<noteq> EvFn c \<Longrightarrow> ev \<noteq> EvRun c \<Longrightarrow> ev \<noteq> EvSched c \<Longrightarrow> follows c a s \<Longrightarrow> follows c a (log ev s)"
  by (rule follows_step [where evs' = "[ev]"]) (auto simp: calm_def code_ok_def log_def subscribers_def)

lemma calm_track: "calm c s \<Longrightarrow> calm c (track t k s)"
  by (auto simp: calm_def code_ok_def track_def log_def Let_def split: option.splits)

lemma follows_track: "follows c a s \<Longrightarrow> follows c a (track t k s)"
proof (rule follows_step [where evs' = "case activeEffect s of None \<Rightarrow> [] | Some e \<Rightarrow> [EvTrack e t k]"])
  show "trace (track t k s) = trace s @ (case activeEffect s of None \<Rightarrow> [] | Some e \<Rightarrow> [EvTrack e t k])"
    by (simp add: trace_track split: option.splits)
next
  assume c: "calm c s"
  then have "activeEffect s \<noteq> Some c" by (simp add: calm_def)
  then have "\<forall>t' k'. c \<in> set (subscribers (track t k s) t' k') \<longrightarrow> c \<in> set (subscribers s t' k')"
    by (auto simp: subscribers_track split: option.splits if_splits)
  with c show "calm c (track t k s) \<and>
      EvFn c \<notin> set (case activeEffect s of None \<Rightarrow> [] | Some e \<Rightarrow> [EvTrack e t k]) \<and>
      EvRun c \<notin> set (case activeEffect s of None \<Rightarrow> [] | Some e \<Rightarrow> [EvTrack e t k]) \<and>
      EvSched c \<notin> set (case activeEffect s of None \<Rightarrow> [] | Some e \<Rightarrow> [EvTrack e t k]) \<and>
      (\<forall>t' k'. c \<in> set (subscribers (track t k s) t' k') \<longrightarrow> c \<in> set (subscribers s t' k'))"
    by (auto simp: calm_track split: option.splits)
qed (assumption)

lemma follows_reactive: "reactive x s = (v, s') \<Longrightarrow> follows c a s \<Longrightarrow> follows c a s'"
proof -
  assume r: "reactive x s = (v, s')" and f: "follows c a s"
  have "\<exists>evs. trace s' = trace s @ evs \<and> EvFn c \<notin> set evs \<and> EvRun c \<notin> set evs \<and> EvSched c \<notin> set evs"
    using r by (auto simp: reactive_def log_def Let_def split: if_splits jsval.splits option.splits)
  then obtain evs where e: "trace s' = trace s @ evs" "EvFn c \<notin> set evs" "EvRun c \<notin> set evs"
    "EvSched c \<notin> set evs" by blast
  have st: "effects s' = effects s" "effectStack s' = effectStack s" "activeEffect s' = activeEffect s"
    "computeds s' = computeds s" "targetMap s' = targetMap s"
    using r by (auto simp: reactive_def log_def Let_def split: if_splits jsval.splits option.splits)
  from f e(1) show ?thesis
    by (rule follows_step) (use e st in \<open>auto simp: calm_def code_ok_def subscribers_def\<close>)
qed

lemma follows_proxy_get: "proxy_get p k s = (v, s') \<Longrightarrow> follows c a s \<Longrightarrow> follows c a s'"
  by (auto simp: proxy_get_def Let_def split: if_splits intro: follows_track follows_reactive)

lemma follows_proxy_has: "proxy_has p k s = (v, s') \<Longrightarrow> follows c a s \<Longrightarrow> follows c a s'"
  by (auto simp: proxy_has_def Let_def intro: follows_track)

lemma follows_proxy_ownKeys: "proxy_ownKeys p s = (v, s') \<Longrightarrow> follows c a s \<Longrightarrow> follows c a s'"
  by (auto simp: proxy_ownKeys_def Let_def intro!: follows_track follows_sym)

lemma calm_cleanup: "calm c s \<Longrightarrow> calm c (cleanupEffect e s)"
  by (simp add: calm_def code_ok_def cleanup_static)

lemma follows_cleanup: "follows c a s \<Longrightarrow> follows c a (cleanupEffect e s)"
  by (rule follows_step [where evs' = "[]"])
     (auto simp: calm_cleanup cleanup_static dest: cleanup_subset)

lemma follows_stop: "follows c a s \<Longrightarrow> follows c a (stop_effect e s)"
proof (cases "active (effects s e)")
  case True
  assume f: "follows c a s"
  have "follows c a (cleanupEffect e s)" using f by (rule follows_cleanup)
  then have "follows c a ((cleanupEffect e s)\<lparr>effects := (effects (cleanupEffect e s))
      (e := (effects (cleanupEffect e s) e)\<lparr>active := False\<rparr>)\<rparr>)"
    by (rule follows_step [where evs' = "[]"]) (auto simp: calm_def code_ok_def subscribers_def)
  with True show ?thesis by (simp add: stop_effect_def Let_def)
next
  case False
  assume "follows c a s"
  with False show ?thesis by (simp add: stop_effect_def)
qed

lemma follows_enter:
  assumes "e \<noteq> c" and "follows c a s"
  shows "follows c a (log (EvFn e) (run_enter e s))"
proof -
  from assms(2) have "follows c a (s\<lparr>effectStack := effectStack s @ [e], activeEffect := Some e\<rparr>)"
    by (rule follows_step [where evs' = "[]"]) (use assms(1) in \<open>auto simp: calm_def code_ok_def subscribers_def\<close>)
  then have "follows c a (run_enter e s)" unfolding run_enter_def by (rule follows_cleanup)
  with assms(1) show ?thesis by (simp add: follows_log)
qed

lemma stack_top_butlast: "c \<notin> set xs \<Longrightarrow> stack_top (butlast xs) \<noteq> Some c"
  by (auto simp: stack_top_def dest: in_set_butlastD last_in_set)

lemma follows_finally: "follows c a s \<Longrightarrow> follows c a (run_finally s)"
  by (rule follows_step [where evs' = "[]"])
     (auto simp: calm_def code_ok_def subscribers_def run_finally_def stack_top_butlast
           dest: in_set_butlastD)


lemma follows_cases:
  assumes "follows c a s"
  obtains (triggered) "triggered c a s" | (calm) "calm c s"
  using assms by (auto simp: follows_def unnotified_def)

lemma triggered_follows: "triggered c a s \<Longrightarrow> follows c a s"
  by (simp add: follows_def)

lemma follows_eval_triggered:
  "triggered c a s \<Longrightarrow> eval n e s = Some (out, s') \<Longrightarrow> follows c a s'"
  using eval_trace triggered_extends triggered_follows by blast

lemma follows_trigger_log:
  assumes "follows c a s" and "c \<in> set (subscribers s t k)"
  shows "triggered c a (log (EvTrigger t k) s)"
proof (cases "triggered c a s")
  case True
  then show ?thesis by (rule triggered_extends) simp
next
  case False
  with assms(1) have "unnotified c a s" by (simp add: follows_def)
  then obtain evs where "trace s = trace a @ evs"
    "\<forall>t k. c \<in> set (subscribers s t k) \<longrightarrow> c \<in> set (subscribers a t k)"
    unfolding unnotified_def by blast
  with assms(2) show ?thesis
    unfolding triggered_def by (intro exI [of _ "evs @ [EvTrigger t k]"]) auto
qed

lemma eval_follows:
  "eval n e s = Some (out, s') \<Longrightarrow> step_code c e \<Longrightarrow> follows c a s \<Longrightarrow> follows c a s'"
proof (induction n arbitrary: e s out s')
  case 0
  then show ?case by simp
next
  case (Suc n)
  have IH: "\<And>e s out s'. eval n e s = Some (out, s') \<Longrightarrow> user_code c e \<Longrightarrow> follows c a s \<Longrightarrow> follows c a s'"
    using Suc.IH user_step by blast
  have IH_trigger: "\<And>t k s out s'. eval n (Trigger t k) s = Some (out, s') \<Longrightarrow> follows c a s \<Longrightarrow> follows c a s'"
    using Suc.IH [of "Trigger _ _"] by simp
  have IH_loop: "\<And>es s out s'. eval n (TriggerEffects es) s = Some (out, s') \<Longrightarrow> c \<notin> set es \<Longrightarrow>
      follows c a s \<Longrightarrow> follows c a s'"
    using Suc.IH [of "TriggerEffects _"] by simp
  have IH_sched: "\<And>e s out s'. eval n (CallScheduler e) s = Some (out, s') \<Longrightarrow> follows c a s \<Longrightarrow> follows c a s'"
    using Suc.IH [of "CallScheduler _"] by simp
  have IH_run: "\<And>e s out s'. eval n (Run e) s = Some (out, s') \<Longrightarrow> e \<noteq> c \<Longrightarrow> follows c a s \<Longrightarrow> follows c a s'"
    using Suc.IH [of "Run _"] by simp
  note prim = follows_track follows_set follows_delete follows_clean follows_dirty follows_stop
    follows_reactive follows_proxy_get follows_proxy_has follows_proxy_ownKeys
  note rules = IH IH_trigger prim
  note f = Suc.prems(3)
  show ?case
  proof (cases e)
    case (Lit v)
    with Suc.prems show ?thesis by auto
  next
    case (Seq x y)
    with Suc.prems show ?thesis
      by (auto elim!: bind_okE; blast intro: rules)
  next
    case (Cond x y z)
    with Suc.prems show ?thesis
      by (auto elim!: bind_okE split: if_splits; blast intro: rules)
  next
    case (Op2 g x y)
    with Suc.prems show ?thesis
      by (auto elim!: bind_okE; blast intro: rules)
  next
    case (Throw x)
    with Suc.prems show ?thesis
      by (auto elim!: bind_okE; blast intro: rules)
  next
    case (PropGet x k)
    with Suc.prems show ?thesis
      by (auto elim!: bind_okE split: jsval.splits prod.splits if_splits; blast intro: rules)
  next
    case (PropSet x k y)
    with Suc.prems show ?thesis
      by (auto elim!: bind_okE simp: Let_def split: jsval.splits prod.splits if_splits; blast intro: rules)
  next
    case (PropHas k x)
    with Suc.prems show ?thesis
      by (auto elim!: bind_okE split: jsval.splits prod.splits if_splits; blast intro: rules)
  next
    case (OwnKeys x)
    with Suc.prems show ?thesis
      by (auto elim!: bind_okE split: jsval.splits prod.splits if_splits; blast intro: rules)
  next
    case (PropDelete x k)
    with Suc.prems show ?thesis
      by (auto elim!: bind_okE simp: Let_def split: jsval.splits prod.splits if_splits; blast intro: rules)
  next
    case (Reactive x)
    with Suc.prems show ?thesis
      by (auto elim!: bind_okE split: jsval.splits prod.splits if_splits; blast intro: rules)
  next
    case (Stop x)
    with Suc.prems show ?thesis by (auto intro: follows_stop)
  next
    case (Track t k)
    with Suc.prems show ?thesis by (auto intro: follows_track)
  next
    case (Trigger t k)
    note ev = Suc.prems(1) [unfolded Trigger]
    have l: "follows c a (log (EvTrigger t k) s)" using f by (simp add: follows_log)
    show ?thesis
    proof (cases "c \<in> set (subscribers s t k)")
      case True
      with f have "triggered c a (log (EvTrigger t k) s)" by (rule follows_trigger_log)
      moreover from ev obtain evs where "trace s' = trace (log (EvTrigger t k) s) @ evs"
        by (auto split: option.splits dest: eval_trace)
      ultimately show ?thesis by (blast intro: triggered_extends triggered_follows)
    next
      case False
      with ev l show ?thesis
        by (auto simp: subscribers_def split: option.splits intro: IH_loop)
    qed
  next
    case (TriggerEffects es)
    show ?thesis
    proof (cases es)
      case Nil
      with TriggerEffects Suc.prems show ?thesis by simp
    next
      case (Cons x xs)
      with TriggerEffects Suc.prems(2) have x: "x \<noteq> c" and xs: "c \<notin> set xs" by auto
      let ?X = "if Some x \<noteq> activeEffect s
        then (if scheduler (effects s x) \<noteq> None
              then eval n (CallScheduler x) (log (EvSched x) s)
              else eval n (Run x) (log (EvRun x) s))
        else Some (Ok VUndef, s)"
      from Suc.prems(1) TriggerEffects Cons
      have b: "bind_ok ?X (\<lambda>_ s1. eval n (TriggerEffects xs) s1) = Some (out, s')" by simp
      have step: "follows c a s1" if "?X = Some (o1, s1)" for o1 s1
      proof (cases "Some x \<noteq> activeEffect s")
        case False
        with that f show ?thesis by simp
      next
        case True
        show ?thesis
        proof (cases "scheduler (effects s x) \<noteq> None")
          case True
          with \<open>Some x \<noteq> activeEffect s\<close> that
          have "eval n (CallScheduler x) (log (EvSched x) s) = Some (o1, s1)" by simp
          moreover have "follows c a (log (EvSched x) s)" using f x by (simp add: follows_log)
          ultimately show ?thesis by (rule IH_sched)
        next
          case False
          with \<open>Some x \<noteq> activeEffect s\<close> that
          have "eval n (Run x) (log (EvRun x) s) = Some (o1, s1)" by simp
          moreover have "follows c a (log (EvRun x) s)" using f x by (simp add: follows_log)
          ultimately show ?thesis using x by (blast intro: IH_run)
        qed
      qed
      from b show ?thesis
      proof (cases rule: bind_okE)
        case (thrown ex)
        then show ?thesis using step by blast
      next
        case (ok v s1)
        from step [OF ok(1)] have "follows c a s1" .
        with ok(2) xs show ?thesis by (blast intro: IH_loop)
      qed
    qed
  next
    case (CallScheduler x)
    note ev = Suc.prems(1) [unfolded CallScheduler]
    show ?thesis
    proof (cases "scheduler (effects s x)")
      case None
      with ev f show ?thesis by simp
    next
      case (Some sch)
      show ?thesis
      proof (cases sch)
        case (SchedFn body)
        with Some ev have b: "eval n body s = Some (out, s')" by simp
        from f show ?thesis
        proof (cases rule: follows_cases)
          case triggered
          then show ?thesis using b by (rule follows_eval_triggered)
        next
          case calm
          with Some SchedFn have "user_code c body" by (auto simp: calm_def code_ok_def)
          with b f show ?thesis by (blast intro: IH)
        qed
      next
        case (SchedComputed x2)
        with Some ev f show ?thesis
          by (auto split: if_splits intro: IH_trigger follows_dirty)
      qed
    qed
  next
    case (Run x)
    with Suc.prems(2) have x: "x \<noteq> c" by simp
    note ev = Suc.prems(1) [unfolded Run]
    from f show ?thesis
    proof (cases rule: follows_cases)
      case triggered
      then show ?thesis using Suc.prems(1) by (rule follows_eval_triggered)
    next
      case calm
      then have uc: "user_code c (fn (effects s x))" by (simp add: calm_def code_ok_def)
      show ?thesis
      proof (cases "active (effects s x)")
        case False
        with ev have "eval n (fn (effects s x)) (log (EvFn x) s) = Some (out, s')" by simp
        moreover have "follows c a (log (EvFn x) s)" using f x by (simp add: follows_log)
        ultimately show ?thesis using uc by (blast intro: IH)
      next
        case True
        with ev obtain sx where g: "eval n (fn (effects s x)) (log (EvFn x) (run_enter x s)) = Some (out, sx)"
          and s': "s' = run_finally sx"
          by (auto simp: finally_pop_def split: option.splits prod.splits)
        have "follows c a (log (EvFn x) (run_enter x s))" using x f by (rule follows_enter)
        with g uc have "follows c a sx" by (blast intro: IH)
        then show ?thesis unfolding s' by (rule follows_finally)
      qed
    qed
  next
    case (ComputedValue x)
    note ev = Suc.prems(1) [unfolded ComputedValue]
    let ?s1 = "track (TComputed x) VALUE_KEY s"
    have f1: "follows c a ?s1" using f by (rule follows_track)
    show ?thesis
    proof (cases "c_dirty (computeds ?s1 x)")
      case False
      with ev f1 show ?thesis by (simp add: Let_def)
    next
      case True
      with ev obtain v s2 where r: "eval n (Run (c_effect (computeds ?s1 x))) ?s1 = Some (out, s2)"
        and d: "(out = Ok v \<and> s' = set_computed x ((computeds s2 x)\<lparr>c_value := v, c_dirty := False\<rparr>) s2)
                \<or> ((\<exists>ex. out = Thrown ex) \<and> s' = s2)"
        by (auto simp: Let_def elim!: bind_okE)
      from f1 have "follows c a s2"
      proof (cases rule: follows_cases)
        case triggered
        then show ?thesis using r by (rule follows_eval_triggered)
      next
        case calm
        then have "c_effect (computeds ?s1 x) \<noteq> c" by (simp add: calm_def code_ok_def)
        with r f1 show ?thesis by (blast intro: IH_run)
      qed
      with d show ?thesis by (auto intro: follows_clean)
    qed
  qed
qed


lemma new_events_append: "trace s' = trace s @ evs \<Longrightarrow> new_events s s' = evs"
  by (simp add: new_events_def)

lemma only_subscribed_keys_notify:
  assumes ev: "eval n w s = Some (out, s')" and code: "user_code c w" and calm: "calm c s"
    and keys: "\<forall>t k. EvTrigger t k \<in> set (new_events s s') \<longrightarrow> c \<notin> set (subscribers s t k)"
  shows "EvFn c \<notin> set (new_events s s') \<and> EvRun c \<notin> set (new_events s s') \<and>
         EvSched c \<notin> set (new_events s s')"
proof -
  have "follows c s s'"
    using ev user_step [OF code] follows_refl [OF calm] by (rule eval_follows)
  moreover have "\<not> triggered c s s'"
    using keys by (auto simp: triggered_def new_events_append)
  ultimately have "unnotified c s s'" by (simp add: follows_def)
  then show ?thesis by (auto simp: unnotified_def new_events_append)
qed

text \<open>
  C2 (as amended). Every run of an active computation \<open>C\<close> starts by removing \<open>C\<close> from
  every subscriber set, and when the run returns \<open>C\<close> is subscribed only to what this run
  tracked. If \<open>C\<close> is then not running (the run was not nested in another run of \<open>C\<close>)
  and is not the effect of a computed, code that does not call the runner of \<open>C\<close>
  re-runs or re-schedules \<open>C\<close> only by triggering a key \<open>C\<close> is subscribed to: as long as every key triggered, by the writes
  and by the computations they notify, is one that this run did not track, the function
  of \<open>C\<close> is not entered, \<open>C\<close> is not run by a trigger and its scheduler is not called.
  So a write to a key read in run N but not in run N+1 does not reach \<open>C\<close>.
\<close>

theorem stale_dependencies_pruned:
  assumes "deps_ok s" and "active (effects s c)" and "eval n (Run c) s = Some (out, s')"
  shows "(\<forall>t k. c \<notin> set (subscribers (run_enter c s) t k)) \<and>
         (\<forall>t k. c \<in> set (subscribers s' t k) \<longrightarrow> EvTrack c t k \<in> set (new_events s s')) \<and>
         (\<forall>m w out2 s2.
            calm c s' \<and> user_code c w \<and> eval m w s' = Some (out2, s2) \<and>
            (\<forall>t k. EvTrigger t k \<in> set (new_events s' s2) \<longrightarrow> EvTrack c t k \<notin> set (new_events s s'))
            \<longrightarrow> EvFn c \<notin> set (new_events s' s2) \<and> EvRun c \<notin> set (new_events s' s2) \<and>
                EvSched c \<notin> set (new_events s' s2))"
proof -
  note old = run_rebuilds_subscriptions [OF assms]
  from old have a: "\<forall>t k. c \<notin> set (subscribers (run_enter c s) t k)" by blast
  from old have b: "\<forall>t k. c \<in> set (subscribers s' t k) \<longrightarrow> EvTrack c t k \<in> set (new_events s s')"
    by (simp add: new_events_def)
  have c: "EvFn c \<notin> set (new_events s' s2) \<and> EvRun c \<notin> set (new_events s' s2) \<and>
                EvSched c \<notin> set (new_events s' s2)"
    if "calm c s'" "user_code c w" "eval m w s' = Some (out2, s2)"
      "\<forall>t k. EvTrigger t k \<in> set (new_events s' s2) \<longrightarrow> EvTrack c t k \<notin> set (new_events s s')"
    for m w out2 s2
    using that b by (intro only_subscribed_keys_notify [of m w s' out2 s2 c]) auto
  from a b c show ?thesis by blast
qed

subsection \<open>Read-only getters\<close>









subsection \<open>Computed values\<close>

lemma eval_Suc: "eval n e s = Some r \<Longrightarrow> \<exists>m. n = Suc m"
  by (cases n) auto

lemma track_inactive: "activeEffect s = None \<Longrightarrow> track t k s = s"
  by (simp add: track_def)


lemma computed_of_Some: "computed_of x = Some c \<longleftrightarrow> x = Some (SchedComputed c)"
  by (cases x rule: computed_of.cases) auto








subsection \<open>A computed stays dirty until its getter is called\<close>

lemma stays_dirty_step:
  assumes "stays_dirty c a s" and "trace s' = trace s @ evs'"
    and "c_effect (computeds s' c) = c_effect (computeds s c)"
    and "c_dirty (computeds s c) \<Longrightarrow> c_dirty (computeds s' c) \<or> EvFn (c_effect (computeds s c)) \<in> set evs'"
  shows "stays_dirty c a s'"
proof -
  from assms(1) obtain evs where e: "trace s = trace a @ evs"
    "c_effect (computeds s c) = c_effect (computeds a c)"
    "c_dirty (computeds s c) \<or> EvFn (c_effect (computeds a c)) \<in> set evs"
    unfolding stays_dirty_def by blast
  have "c_dirty (computeds s' c) \<or> EvFn (c_effect (computeds a c)) \<in> set (evs @ evs')"
  proof (cases "c_dirty (computeds s c)")
    case True
    from assms(4) [OF True] e(2) show ?thesis by auto
  next
    case False
    with e(3) show ?thesis by simp
  qed
  moreover have "trace s' = trace a @ (evs @ evs')" using e(1) assms(2) by simp
  moreover have "c_effect (computeds s' c) = c_effect (computeds a c)" using e(2) assms(3) by simp
  ultimately show ?thesis unfolding stays_dirty_def by blast
qed

lemma stays_dirty_refl: "c_dirty (computeds s c) \<Longrightarrow> stays_dirty c s s"
  by (simp add: stays_dirty_def)

lemma sd_set: "stays_dirty c a s \<Longrightarrow> stays_dirty c a (raw_set ob k v s)"
  by (rule stays_dirty_step [where evs' = "[]"]) (auto simp: raw_set_def)

lemma sd_delete: "stays_dirty c a s \<Longrightarrow> stays_dirty c a (raw_delete ob k s)"
  by (rule stays_dirty_step [where evs' = "[]"]) (auto simp: raw_delete_def)

lemma sd_sym: "stays_dirty c a s \<Longrightarrow> stays_dirty c a (s\<lparr>nextSym := m\<rparr>)"
  by (rule stays_dirty_step [where evs' = "[]"]) auto

lemma sd_dirty:
  "stays_dirty c a s \<Longrightarrow> stays_dirty c a (set_computed x ((computeds s x)\<lparr>c_dirty := True\<rparr>) s)"
  by (rule stays_dirty_step [where evs' = "[]"]) (auto simp: set_computed_def)

lemma sd_clean_other:
  "x \<noteq> c \<Longrightarrow> stays_dirty c a s \<Longrightarrow>
   stays_dirty c a (set_computed x ((computeds s x)\<lparr>c_value := v, c_dirty := False\<rparr>) s)"
  by (rule stays_dirty_step [where evs' = "[]"]) (auto simp: set_computed_def)

lemma sd_log: "stays_dirty c a s \<Longrightarrow> stays_dirty c a (log ev s)"
  by (rule stays_dirty_step [where evs' = "[ev]"]) (auto simp: log_def)

lemma computeds_track [simp]: "computeds (track t k s) = computeds s"
  by (auto simp: track_def log_def Let_def split: option.splits)

lemma sd_track: "stays_dirty c a s \<Longrightarrow> stays_dirty c a (track t k s)"
  by (rule stays_dirty_step [where evs' = "case activeEffect s of None \<Rightarrow> [] | Some e \<Rightarrow> [EvTrack e t k]"])
     (auto simp: trace_track split: option.splits)

lemma sd_reactive: "reactive x s = (v, s') \<Longrightarrow> stays_dirty c a s \<Longrightarrow> stays_dirty c a s'"
proof -
  assume r: "reactive x s = (v, s')" and f: "stays_dirty c a s"
  have "\<exists>evs. trace s' = trace s @ evs" "computeds s' = computeds s"
    using r by (auto simp: reactive_def log_def Let_def split: if_splits jsval.splits option.splits)
  then obtain evs where e: "trace s' = trace s @ evs" and c: "computeds s' = computeds s" by blast
  from f e show ?thesis by (rule stays_dirty_step) (simp_all add: c)
qed

lemma sd_proxy_get: "proxy_get p k s = (v, s') \<Longrightarrow> stays_dirty c a s \<Longrightarrow> stays_dirty c a s'"
  by (auto simp: proxy_get_def Let_def split: if_splits intro: sd_track sd_reactive)

lemma sd_proxy_has: "proxy_has p k s = (v, s') \<Longrightarrow> stays_dirty c a s \<Longrightarrow> stays_dirty c a s'"
  by (auto simp: proxy_has_def Let_def intro: sd_track)

lemma sd_proxy_ownKeys: "proxy_ownKeys p s = (v, s') \<Longrightarrow> stays_dirty c a s \<Longrightarrow> stays_dirty c a s'"
  by (auto simp: proxy_ownKeys_def Let_def intro!: sd_track sd_sym)

lemma sd_cleanup: "stays_dirty c a s \<Longrightarrow> stays_dirty c a (cleanupEffect e s)"
  by (rule stays_dirty_step [where evs' = "[]"]) (auto simp: cleanup_static)

lemma sd_stop: "stays_dirty c a s \<Longrightarrow> stays_dirty c a (stop_effect e s)"
proof (cases "active (effects s e)")
  case True
  assume f: "stays_dirty c a s"
  have "stays_dirty c a (cleanupEffect e s)" using f by (rule sd_cleanup)
  then have "stays_dirty c a ((cleanupEffect e s)\<lparr>effects := (effects (cleanupEffect e s))
      (e := (effects (cleanupEffect e s) e)\<lparr>active := False\<rparr>)\<rparr>)"
    by (rule stays_dirty_step [where evs' = "[]"]) auto
  with True show ?thesis by (simp add: stop_effect_def Let_def)
next
  case False
  assume "stays_dirty c a s"
  with False show ?thesis by (simp add: stop_effect_def)
qed

lemma sd_enter: "stays_dirty c a s \<Longrightarrow> stays_dirty c a (log (EvFn e) (run_enter e s))"
  by (rule stays_dirty_step [where evs' = "[EvFn e]"])
     (auto simp: log_def run_enter_def cleanup_static)

lemma sd_finally: "stays_dirty c a s \<Longrightarrow> stays_dirty c a (run_finally s)"
  by (rule stays_dirty_step [where evs' = "[]"]) (auto simp: run_finally_def)

lemma run_logs_fn:
  assumes "eval n (Run e) s = Some (out, s')"
  shows "\<exists>evs. trace s' = trace s @ EvFn e # evs"
proof -
  from assms obtain m where n: "n = Suc m" by (cases n) auto
  show ?thesis
  proof (cases "active (effects s e)")
    case False
    with assms n have "eval m (fn (effects s e)) (log (EvFn e) s) = Some (out, s')" by simp
    from eval_trace [OF this] show ?thesis by (auto simp: log_def)
  next
    case True
    with assms n obtain sx where g: "eval m (fn (effects s e)) (log (EvFn e) (run_enter e s)) = Some (out, sx)"
      and s': "s' = run_finally sx"
      by (auto simp: finally_pop_def split: option.splits prod.splits)
    from eval_trace [OF g] show ?thesis
      by (auto simp: s' log_def run_enter_def cleanup_static run_finally_def)
  qed
qed

lemma sd_run_done:
  assumes "stays_dirty c a s" and "eval n (Run (c_effect (computeds s c))) s = Some (out, s2)"
    and "trace s' = trace s2" and "c_effect (computeds s' c) = c_effect (computeds s c)"
  shows "stays_dirty c a s'"
proof -
  from run_logs_fn [OF assms(2)] obtain evs where "trace s2 = trace s @ EvFn (c_effect (computeds s c)) # evs"
    by blast
  with assms(3) have t: "trace s' = trace s @ (EvFn (c_effect (computeds s c)) # evs)" by simp
  from assms(1) t assms(4) show ?thesis by (rule stays_dirty_step) simp
qed

lemma eval_stays_dirty:
  "eval n e s = Some (out, s') \<Longrightarrow> stays_dirty c a s \<Longrightarrow> stays_dirty c a s'"
proof (induction n arbitrary: e s out s')
  case 0
  then show ?case by simp
next
  case (Suc n)
  note IH = Suc.IH
  note rules = IH sd_track sd_set sd_delete sd_dirty sd_stop sd_log sd_enter sd_finally
    sd_reactive sd_proxy_get sd_proxy_has sd_proxy_ownKeys
  note f = Suc.prems(2)
  show ?case
  proof (cases e)
    case (ComputedValue x)
    note ev = Suc.prems(1) [unfolded ComputedValue]
    let ?s1 = "track (TComputed x) VALUE_KEY s"
    have f1: "stays_dirty c a ?s1" using f by (rule sd_track)
    show ?thesis
    proof (cases "c_dirty (computeds ?s1 x)")
      case False
      with ev f1 show ?thesis by (simp add: Let_def)
    next
      case True
      with ev obtain v s2 where r: "eval n (Run (c_effect (computeds ?s1 x))) ?s1 = Some (out, s2)"
        and d: "(out = Ok v \<and> s' = set_computed x ((computeds s2 x)\<lparr>c_value := v, c_dirty := False\<rparr>) s2)
                \<or> ((\<exists>ex. out = Thrown ex) \<and> s' = s2)"
        by (auto simp: Let_def elim!: bind_okE)
      from r f1 have f2: "stays_dirty c a s2" by (rule IH)
      show ?thesis
      proof (cases "x = c")
        case False
        with d f2 show ?thesis by (auto intro: sd_clean_other)
      next
        case True
        from eval_frame [OF r] have ce: "c_effect (computeds s2 c) = c_effect (computeds ?s1 c)"
          by (simp add: frame_def)
        from d show ?thesis
        proof
          assume "(\<exists>ex. out = Thrown ex) \<and> s' = s2"
          with f2 show ?thesis by simp
        next
          assume o: "out = Ok v \<and> s' = set_computed x ((computeds s2 x)\<lparr>c_value := v, c_dirty := False\<rparr>) s2"
          from f1 [unfolded True] r [unfolded True] show ?thesis
            by (rule sd_run_done) (use o True ce in \<open>simp_all add: set_computed_def\<close>)
        qed
      qed
    qed
  next
    case (TriggerEffects es)
    with Suc.prems show ?thesis
      by (cases es; auto elim!: bind_okE simp: Let_def split: if_splits; blast intro: rules)
  next
    case (Run e1)
    with Suc.prems show ?thesis
      by (auto simp: finally_pop_def split: if_splits option.splits prod.splits; blast intro: rules)
  next
    case (Lit v)
    with Suc.prems show ?thesis by auto
  next
    case (Seq x y)
    with Suc.prems show ?thesis
      by (auto elim!: bind_okE; blast intro: rules)
  next
    case (Cond x y z)
    with Suc.prems show ?thesis
      by (auto elim!: bind_okE split: if_splits; blast intro: rules)
  next
    case (Op2 g x y)
    with Suc.prems show ?thesis
      by (auto elim!: bind_okE; blast intro: rules)
  next
    case (Throw x)
    with Suc.prems show ?thesis
      by (auto elim!: bind_okE; blast intro: rules)
  next
    case (PropGet x k)
    with Suc.prems show ?thesis
      by (auto elim!: bind_okE split: jsval.splits prod.splits if_splits; blast intro: rules)
  next
    case (PropSet x k y)
    with Suc.prems show ?thesis
      by (auto elim!: bind_okE simp: Let_def split: jsval.splits prod.splits if_splits; blast intro: rules)
  next
    case (PropHas k x)
    with Suc.prems show ?thesis
      by (auto elim!: bind_okE split: jsval.splits prod.splits if_splits; blast intro: rules)
  next
    case (OwnKeys x)
    with Suc.prems show ?thesis
      by (auto elim!: bind_okE split: jsval.splits prod.splits if_splits; blast intro: rules)
  next
    case (PropDelete x k)
    with Suc.prems show ?thesis
      by (auto elim!: bind_okE simp: Let_def split: jsval.splits prod.splits if_splits; blast intro: rules)
  next
    case (Reactive x)
    with Suc.prems show ?thesis
      by (auto elim!: bind_okE split: jsval.splits prod.splits if_splits; blast intro: rules)
  next
    case (Stop x)
    with Suc.prems show ?thesis by (auto intro: sd_stop)
  next
    case (Track t k)
    with Suc.prems show ?thesis by (auto intro: sd_track)
  next
    case (Trigger t k)
    with Suc.prems show ?thesis
      by (auto split: option.splits; blast intro: rules)
  next
    case (CallScheduler x)
    with Suc.prems show ?thesis
      by (auto split: option.splits sched.splits if_splits; blast intro: rules)
  qed
qed

lemma dirty_until_getter:
  assumes "eval n w s = Some (out, s')" and "c_dirty (computeds s c)"
  shows "c_dirty (computeds s' c) \<or> EvFn (c_effect (computeds s c)) \<in> set (new_events s s')"
  using eval_stays_dirty [OF assms(1) stays_dirty_refl [OF assms(2)]]
  by (auto simp: stays_dirty_def new_events_append)









lemma fn_calls_track [simp]: "fn_calls x (track t k s) = fn_calls x s"
  by (simp add: fn_calls_def trace_track split: option.splits)

lemma fn_track [simp]: "fn (effects (track t k s) x) = fn (effects s x)"
  by (auto simp: track_def log_def Let_def split: option.splits)






text \<open>
  C7. While a computed is dirty, an upstream notification of its effect does nothing but
  call the scheduler: no \<open>trigger(this, 'value')\<close>. A notification that finds it clean
  makes it dirty and triggers its \<open>value\<close> dependency; a second notification arriving
  while it is still dirty adds no downstream trigger. A notification that finds it dirty
  always returns.
\<close>

theorem computed_dirty_coalescing:
  assumes sch0: "computed_of (scheduler (effects s e)) = Some c"
    and act: "activeEffect s \<noteq> Some e" and ok: "stack_ok s"
  shows "(c_dirty (computeds s c) \<and> eval n (TriggerEffects [e]) s = Some (out, s')
            \<longrightarrow> out = Ok VUndef \<and> s' = log (EvSched e) s) \<and>
         (\<not> c_dirty (computeds s c) \<and> eval n (CallScheduler e) s = Some (out, s')
            \<longrightarrow> (\<exists>evs. trace s' = trace s @ EvTrigger (TComputed c) VALUE_KEY # evs)) \<and>
         (eval n (TriggerEffects [e]) s = Some (Ok u, s1) \<and> c_dirty (computeds s1 c) \<and>
          eval m (TriggerEffects [e]) s1 = Some (out, s2)
            \<longrightarrow> downstream c s2 = downstream c s1) \<and>
         (c_dirty (computeds s c)
            \<longrightarrow> (\<forall>j. eval (Suc (Suc j)) (TriggerEffects [e]) s = Some (Ok VUndef, log (EvSched e) s)))"
proof -
  from sch0 have sch: "scheduler (effects s e) = Some (SchedComputed c)"
    by (simp add: computed_of_Some)
  have p1: "c_dirty (computeds s c) \<and> eval n (TriggerEffects [e]) s = Some (out, s')
            \<longrightarrow> out = Ok VUndef \<and> s' = log (EvSched e) s"
  proof
  assume a: "c_dirty (computeds s c) \<and> eval n (TriggerEffects [e]) s = Some (out, s')"
  then obtain n1 where n: "n = Suc n1" by (auto dest: eval_Suc)
  with a act sch
  have b: "bind_ok (eval n1 (CallScheduler e) (log (EvSched e) s)) (\<lambda>_ s1. eval n1 (TriggerEffects []) s1)
           = Some (out, s')" by auto
  then obtain n2 where n1: "n1 = Suc n2" by (cases n1) (auto simp: bind_ok_def)
  from a sch have "eval n1 (CallScheduler e) (log (EvSched e) s) = Some (Ok VUndef, log (EvSched e) s)"
    by (simp add: n1 log_def)
  with b n1 show "out = Ok VUndef \<and> s' = log (EvSched e) s" by (auto simp: bind_ok_def)
  qed
  have p2: "\<not> c_dirty (computeds s c) \<and> eval n (CallScheduler e) s = Some (out, s')
            \<longrightarrow> (\<exists>evs. trace s' = trace s @ EvTrigger (TComputed c) VALUE_KEY # evs)"
  proof
  assume a: "\<not> c_dirty (computeds s c) \<and> eval n (CallScheduler e) s = Some (out, s')"
  then obtain n1 where n: "n = Suc n1" by (auto dest: eval_Suc)
  let ?s1 = "set_computed c ((computeds s c)\<lparr>c_dirty := True\<rparr>) s"
  from a n sch have t: "eval n1 (Trigger (TComputed c) VALUE_KEY) ?s1 = Some (out, s')" by auto
  then obtain n2 where n1: "n1 = Suc n2" by (auto dest: eval_Suc)
  have "\<exists>evs. trace s' = trace (log (EvTrigger (TComputed c) VALUE_KEY) ?s1) @ evs"
    using t n1 by (auto split: option.splits dest!: eval_trace)
  then show "\<exists>evs. trace s' = trace s @ EvTrigger (TComputed c) VALUE_KEY # evs"
    by (simp add: set_computed_def)
  qed
  have p3: "eval n (TriggerEffects [e]) s = Some (Ok u, s1) \<and> c_dirty (computeds s1 c) \<and>
          eval m (TriggerEffects [e]) s1 = Some (out, s2)
            \<longrightarrow> downstream c s2 = downstream c s1"
  proof
  assume a: "eval n (TriggerEffects [e]) s = Some (Ok u, s1) \<and> c_dirty (computeds s1 c) \<and>
          eval m (TriggerEffects [e]) s1 = Some (out, s2)"
  then have fr: "frame s s1" by (blast intro: eval_frame)
  with sch have sch1: "scheduler (effects s1 e) = Some (SchedComputed c)" by (simp add: frame_def)
  from fr ok act have act1: "activeEffect s1 \<noteq> Some e" by (simp add: frame_def)
  from a obtain m1 where m: "m = Suc m1" by (auto dest: eval_Suc)
  with a act1 sch1
  have b: "bind_ok (eval m1 (CallScheduler e) (log (EvSched e) s1)) (\<lambda>_ s1. eval m1 (TriggerEffects []) s1)
           = Some (out, s2)" by auto
  then obtain m2 where m1: "m1 = Suc m2" by (cases m1) (auto simp: bind_ok_def)
  from a sch1 have "eval m1 (CallScheduler e) (log (EvSched e) s1) = Some (Ok VUndef, log (EvSched e) s1)"
    by (simp add: m1 log_def)
  with b m1 have "s2 = log (EvSched e) s1" by (auto simp: bind_ok_def)
  then show "downstream c s2 = downstream c s1" by (simp add: downstream_def)
  qed
  have p4: "c_dirty (computeds s c)
            \<longrightarrow> (\<forall>j. eval (Suc (Suc j)) (TriggerEffects [e]) s = Some (Ok VUndef, log (EvSched e) s))"
  proof (intro impI allI)
    fix j
    assume d: "c_dirty (computeds s c)"
    define n1 where "n1 = Suc j"
    from d sch have cs: "eval n1 (CallScheduler e) (log (EvSched e) s) = Some (Ok VUndef, log (EvSched e) s)"
      by (simp add: n1_def log_def)
    have nil: "\<And>x. eval n1 (TriggerEffects []) x = Some (Ok VUndef, x)" by (simp add: n1_def)
    from act sch cs nil have "eval (Suc n1) (TriggerEffects [e]) s = Some (Ok VUndef, log (EvSched e) s)"
      by (auto simp: bind_ok_def)
    then show "eval (Suc (Suc j)) (TriggerEffects [e]) s = Some (Ok VUndef, log (EvSched e) s)"
      by (simp only: n1_def)
  qed
  from p1 p2 p3 p4 show ?thesis by blast
qed

subsection \<open>Scenarios: the claims at concrete inputs\<close>

lemma result_split: "outcome_of r = Some out \<Longrightarrow> r = Some (out, state_of r)"
  by (cases r) (auto simp: outcome_of_def state_of_def)

text \<open>
  C1 as stated fails in two ways. An effect that reads \<open>obj.__v_isReactive\<close> is not
  subscribed (the \<open>get\<close> trap answers before \<open>track\<close>), so the later write of 5 over
  \<open>undefined\<close> triggers the key and notifies nobody. And a stopped effect that is run again
  reads \<open>obj.count\<close> without being subscribed, so the later write of 1 over 0 does not
  notify it: in both traces the function runs once and no \<open>EvRun\<close> or \<open>EvSched\<close> follows
  the trigger.
\<close>

theorem track_trigger_closure_counterexample:
  "outcome_of (eval 9 (Seq (Run 1) (PropSet the_proxy IS_REACTIVE (Lit (VNum 5)))) flag_reader_state)
     = Some (Ok (VNum 5)) \<and>
   trace_of (eval 9 (Seq (Run 1) (PropSet the_proxy IS_REACTIVE (Lit (VNum 5)))) flag_reader_state)
     = Some [EvFn 1, EvTrigger (TObj 0) IS_REACTIVE] \<and>
   outcome_of (eval 9 (Seq (Stop 1) (Seq (Run 1) (write_count 1))) reader_state) = Some (Ok (VNum 1)) \<and>
   trace_of (eval 9 (Seq (Stop 1) (Seq (Run 1) (write_count 1))) reader_state)
     = Some [EvFn 1, EvTrigger (TObj 0) count_key]"
  by code_simp

text \<open>
  C6 as stated fails when the write comes from a computation nested in \<open>C\<close>. Effect 1
  reads \<open>obj.count\<close> and then runs effect 2, which writes \<open>obj.count = 1\<close>: the active
  effect is then effect 2, so the trigger loop calls \<open>run\<close> of effect 1 while effect 1 is
  still executing, and its function is entered a second time.
\<close>

theorem self_trigger_counterexample:
  "outcome_of (eval 20 (Run 1) nested_state) = Some (Ok (VNum 1)) \<and>
   trace_of (eval 20 (Run 1) nested_state)
     = Some [EvFn 1, EvTrack 1 (TObj 0) count_key, EvFn 2, EvTrigger (TObj 0) count_key,
             EvRun 1, EvFn 1, EvTrack 1 (TObj 0) count_key, EvFn 2]"
  by code_simp

text \<open>
  C5. An effect that enumerates the keys of the proxy is subscribed under a symbol made by
  that very \<open>ownKeys\<close> call. Adding the key \<open>extra\<close> and deleting the key \<open>count\<close>
  afterwards trigger those two keys only: the effect is never run again.
\<close>

theorem ownKeys_never_notified:
  "trace_of (eval 9 (Seq (Run 1) (Seq (PropSet the_proxy (KStr ''extra'') (Lit (VNum 1)))
                                     (PropDelete the_proxy count_key))) enumerating_state)
     = Some [EvFn 1, EvTrack 1 (TObj 0) (KSym 0), EvTrigger (TObj 0) (KStr ''extra''),
             EvTrigger (TObj 0) count_key]"
  by code_simp

theorem trigger_skips_running_effect_witness:
  "stack_ok inside_run \<and> activeEffect inside_run = Some 1 \<and>
   outcome_of (eval 9 (TriggerEffects [1, 2]) inside_run) = Some (Ok VUndef) \<and>
   eval 9 (TriggerEffects (removeAll 1 [1, 2])) inside_run = eval 9 (TriggerEffects [1, 2]) inside_run \<and>
   trace_of (eval 9 (TriggerEffects [1, 2]) inside_run) = Some [EvFn 1, EvRun 2, EvFn 2]"
proof -
  have a: "stack_ok inside_run" by code_simp
  have b: "activeEffect inside_run = Some 1" by code_simp
  have c: "outcome_of (eval 9 (TriggerEffects [1, 2]) inside_run) = Some (Ok VUndef)" by code_simp
  have d: "trace_of (eval 9 (TriggerEffects [1, 2]) inside_run) = Some [EvFn 1, EvRun 2, EvFn 2]"
    by code_simp
  from trigger_skips_running_effect [OF a b, THEN conjunct1, rule_format, OF result_split [OF c]]
    result_split [OF c]
  have "eval 9 (TriggerEffects (removeAll 1 [1, 2])) inside_run = eval 9 (TriggerEffects [1, 2]) inside_run"
    by simp
  with a b c d show ?thesis by blast
qed

lemma with_effect_deps_ok:
  "deps_ok s \<Longrightarrow> (\<forall>t k. e \<notin> set (subscribers s t k)) \<Longrightarrow> deps_ok (with_effect e f sch s)"
  by (auto simp: deps_ok_def with_effect_def subscribers_def)

lemma reactive_deps_ok: "deps_ok s \<Longrightarrow> deps_ok (snd (reactive x s))"
  using tracked_only_reactive [of s x] by (auto simp: tracked_only_def)

lemma deps_ok_simple:
  "deps_ok s \<Longrightarrow> deps_ok (log ev s)"
  "deps_ok s \<Longrightarrow> deps_ok (raw_set ob k v s)"
  by (simp_all add: deps_ok_def subscribers_def log_def raw_set_def)

lemma eval_state_deps_ok:
  "deps_ok s \<Longrightarrow> outcome_of (eval n e s) = Some out \<Longrightarrow> deps_ok (state_of (eval n e s))"
  using eval_deps_ok result_split by metis

lemma toggle_state_deps_ok: "deps_ok toggle_state"
  unfolding toggle_state_def
  by (intro with_effect_deps_ok reactive_deps_ok init_deps_ok)
     (simp add: subscribers_def reactive_targetMap init_state_def)

lemma code_ok_frame: "frame s s' \<Longrightarrow> code_ok c s \<Longrightarrow> code_ok c s'"
  by (simp add: frame_def code_ok_def)

lemma code_ok_eval:
  "code_ok c s \<Longrightarrow> outcome_of (eval n e s) = Some out \<Longrightarrow> code_ok c (state_of (eval n e s))"
  using eval_frame code_ok_frame result_split by metis

lemma code_ok_simple:
  "code_ok c s \<Longrightarrow> code_ok c (log ev s)"
  "code_ok c s \<Longrightarrow> code_ok c (raw_set ob k v s)"
  by (simp_all add: code_ok_def log_def raw_set_def)

lemma toggle_state_code_ok: "code_ok 1 toggle_state"
  by (simp add: code_ok_def toggle_state_def with_effect_def reactive_def init_state_def
      mk_effect_def mk_computed_def the_proxy_def Let_def split: prod.splits)

theorem stale_dependencies_pruned_witness:
  "deps_ok toggled \<and> active (effects toggled 1) \<and>
   outcome_of (eval 9 (Run 1) toggled) = Some (Ok (VStr ''not'')) \<and>
   EvTrack 1 (TObj 0) text_key \<in> set (trace after_first_run) \<and>
   1 \<in> set (subscribers after_first_run (TObj 0) text_key) \<and>
   1 \<notin> set (subscribers (run_enter 1 toggled) (TObj 0) text_key) \<and>
   new_events toggled after_second_run = [EvFn 1, EvTrack 1 (TObj 0) ok_key] \<and>
   1 \<notin> set (subscribers after_second_run (TObj 0) text_key) \<and>
   calm 1 after_second_run \<and>
   user_code 1 (PropSet the_proxy text_key (Lit (VStr ''world''))) \<and>
   outcome_of (eval 9 (PropSet the_proxy text_key (Lit (VStr ''world''))) after_second_run)
     = Some (Ok (VStr ''world'')) \<and>
   new_events after_second_run
       (state_of (eval 9 (PropSet the_proxy text_key (Lit (VStr ''world''))) after_second_run))
     = [EvTrigger (TObj 0) text_key] \<and>
   EvFn 1 \<notin> set (new_events after_second_run
       (state_of (eval 9 (PropSet the_proxy text_key (Lit (VStr ''world''))) after_second_run))) \<and>
   EvRun 1 \<notin> set (new_events after_second_run
       (state_of (eval 9 (PropSet the_proxy text_key (Lit (VStr ''world''))) after_second_run)))"
proof -
  let ?w = "PropSet the_proxy text_key (Lit (VStr ''world''))"
  let ?s2 = "state_of (eval 9 ?w after_second_run)"
  have o1: "outcome_of (eval 9 (Run 1) toggle_state) = Some (Ok (VStr ''hello''))" by code_simp
  have d1: "deps_ok after_first_run"
    unfolding after_first_run_def by (rule eval_state_deps_ok [OF toggle_state_deps_ok o1])
  then have a: "deps_ok toggled" by (simp add: toggled_def deps_ok_simple)
  have b: "active (effects toggled 1)" by code_simp
  have c: "outcome_of (eval 9 (Run 1) toggled) = Some (Ok (VStr ''not''))" by code_simp
  have e1: "EvTrack 1 (TObj 0) text_key \<in> set (trace after_first_run)" by code_simp
  have e2: "1 \<in> set (subscribers after_first_run (TObj 0) text_key)" by code_simp
  have e3: "new_events toggled after_second_run = [EvFn 1, EvTrack 1 (TObj 0) ok_key]"
    by code_simp
  have k1: "code_ok 1 after_first_run"
    unfolding after_first_run_def by (rule code_ok_eval [OF toggle_state_code_ok o1])
  then have "code_ok 1 toggled" by (simp add: toggled_def code_ok_simple)
  then have k2: "code_ok 1 after_second_run"
    unfolding after_second_run_def by (rule code_ok_eval [OF _ c])
  have "1 \<notin> set (effectStack after_second_run)" "activeEffect after_second_run \<noteq> Some 1"
    by code_simp+
  with k2 have calm: "calm 1 after_second_run" by (simp add: calm_def)
  have uc: "user_code 1 ?w" by (simp add: the_proxy_def)
  have w: "outcome_of (eval 9 ?w after_second_run) = Some (Ok (VStr ''world''))" by code_simp
  have e4: "new_events after_second_run ?s2 = [EvTrigger (TObj 0) text_key]" by code_simp
  have tk: "text_key \<noteq> ok_key" by code_simp
  note inst = stale_dependencies_pruned [OF a b result_split [OF c], folded after_second_run_def]
  from inst have p1: "1 \<notin> set (subscribers (run_enter 1 toggled) (TObj 0) text_key)" by blast
  from inst e3 tk have p2: "1 \<notin> set (subscribers after_second_run (TObj 0) text_key)" by auto
  have hyp: "\<forall>t k. EvTrigger t k \<in> set (new_events after_second_run ?s2)
      \<longrightarrow> EvTrack 1 t k \<notin> set (new_events toggled after_second_run)"
    using tk by (simp add: e3 e4)
  from inst [THEN conjunct2, THEN conjunct2, rule_format, OF conjI [OF calm conjI [OF uc
      conjI [OF result_split [OF w] hyp]]]]
  have p3: "EvFn 1 \<notin> set (new_events after_second_run ?s2)"
    and p4: "EvRun 1 \<notin> set (new_events after_second_run ?s2)" by simp_all
  from a b c e1 e2 p1 e3 p2 calm uc w e4 p3 p4 show ?thesis by blast
qed

text \<open>
  C2 as stated fails in two ways. When run N+1 of effect 1 is nested in its run N (run N
  reads \<open>ok\<close> and runs effect 2, whose write to \<open>ok\<close> re-runs effect 1), run N goes on
  after run N+1 has returned and reads \<open>text\<close>: effect 1 is subscribed to \<open>text\<close>, which
  run N+1 did not read, and the later write to \<open>text\<close> re-runs it. And an effect that
  stops itself during run N keeps the subscriptions it makes afterwards, and its \<open>run\<close>
  no longer clears them: run N+1, caused by the write to \<open>ok\<close>, does not read \<open>text\<close>,
  and the write to \<open>text\<close> after it still re-runs the effect.
\<close>

theorem stale_dependencies_pruned_counterexample:
  "outcome_of (eval 20 (Seq (Run 1) (PropSet the_proxy text_key (Lit (VStr ''x'')))) nested_rerun_state)
     = Some (Ok (VStr ''x'')) \<and>
   trace_of (eval 20 (Seq (Run 1) (PropSet the_proxy text_key (Lit (VStr ''x'')))) nested_rerun_state)
     = Some [EvFn 1, EvTrack 1 (TObj 0) ok_key, EvFn 2, EvTrigger (TObj 0) ok_key,
             EvRun 1, EvFn 1, EvTrack 1 (TObj 0) ok_key,
             EvTrack 1 (TObj 0) text_key,
             EvTrigger (TObj 0) text_key, EvRun 1, EvFn 1, EvTrack 1 (TObj 0) ok_key] \<and>
   outcome_of (eval 20 (Seq (Run 1) (Seq (PropSet the_proxy ok_key (Lit (VBool False)))
                                          (PropSet the_proxy text_key (Lit (VStr ''x''))))) stopping_state)
     = Some (Ok (VStr ''x'')) \<and>
   trace_of (eval 20 (Seq (Run 1) (Seq (PropSet the_proxy ok_key (Lit (VBool False)))
                                        (PropSet the_proxy text_key (Lit (VStr ''x''))))) stopping_state)
     = Some [EvFn 1, EvTrack 1 (TObj 0) ok_key, EvTrack 1 (TObj 0) ok_key, EvTrack 1 (TObj 0) text_key,
             EvTrigger (TObj 0) ok_key, EvRun 1, EvFn 1,
             EvTrigger (TObj 0) text_key, EvRun 1, EvFn 1]"
  by code_simp



theorem computed_dirty_coalescing_witness:
  "computed_of (scheduler (effects watching_state 1)) = Some 0 \<and>
   stack_ok watching_state \<and> activeEffect watching_state = None \<and>
   subscribers watching_state (TComputed 0) VALUE_KEY = [2] \<and>
   c_dirty (computeds watching_state 0) = False \<and>
   outcome_of (eval 9 (TriggerEffects [1]) watching_state) = Some (Ok VUndef) \<and>
   c_dirty (computeds notified_once 0) \<and> downstream 0 notified_once = 1 \<and>
   outcome_of (eval 9 (TriggerEffects [1]) notified_once) = Some (Ok VUndef) \<and>
   state_of (eval 9 (TriggerEffects [1]) notified_once) = log (EvSched 1) notified_once \<and>
   downstream 0 (state_of (eval 9 (TriggerEffects [1]) notified_once)) = 1 \<and>
   trace_of (eval 9 (Seq (write_count 2) (write_count 3)) watching_state)
     = Some (trace watching_state @
         [EvTrigger (TObj 0) count_key, EvSched 1, EvTrigger (TComputed 0) VALUE_KEY, EvSched 2,
          EvTrigger (TObj 0) count_key, EvSched 1])"
proof -
  let ?s = watching_state
  let ?s1 = notified_once
  let ?s2 = "state_of (eval 9 (TriggerEffects [1]) ?s1)"
  have a: "computed_of (scheduler (effects ?s 1)) = Some 0" "activeEffect ?s \<noteq> Some 1" "stack_ok ?s"
    by code_simp+
  have a1: "computed_of (scheduler (effects ?s1 1)) = Some 0" "activeEffect ?s1 \<noteq> Some 1" "stack_ok ?s1"
    by code_simp+
  have b: "activeEffect ?s = None" "subscribers ?s (TComputed 0) VALUE_KEY = [2]"
    "c_dirty (computeds ?s 0) = False" by code_simp+
  have c: "outcome_of (eval 9 (TriggerEffects [1]) ?s) = Some (Ok VUndef)" by code_simp
  have d: "c_dirty (computeds ?s1 0)" "downstream 0 ?s1 = 1" by code_simp+
  have e: "outcome_of (eval 9 (TriggerEffects [1]) ?s1) = Some (Ok VUndef)" by code_simp
  have f: "trace_of (eval 9 (Seq (write_count 2) (write_count 3)) ?s)
     = Some (trace ?s @
         [EvTrigger (TObj 0) count_key, EvSched 1, EvTrigger (TComputed 0) VALUE_KEY, EvSched 2,
          EvTrigger (TObj 0) count_key, EvSched 1])" by code_simp
  note c' = result_split [OF c, folded notified_once_def]
  from computed_dirty_coalescing [OF a, where n = 9 and u = VUndef and ?s1.0 = ?s1 and m = 9
      and out = "Ok VUndef" and ?s2.0 = ?s2] c' d result_split [OF e]
  have p3: "downstream 0 ?s2 = 1" by simp
  from computed_dirty_coalescing [OF a1, where n = 9 and out = "Ok VUndef" and s' = ?s2] d result_split [OF e]
  have p1: "?s2 = log (EvSched 1) ?s1" by simp
  from a b c d e f p1 p3 show ?thesis by blast
qed

theorem reactive_idempotent_memoized_witness:
  "isObject (VObj 0) \<and>
   fst (reactive (VObj 0) (init_state (counter_heap 0))) = VProxy 0 \<and>
   fst (reactive (VObj 0) (counter_state 0)) = VProxy 0 \<and>
   fst (reactive (VProxy 0) (counter_state 0)) = VProxy 0"
proof -
  have ob: "isObject (VObj 0)" by simp
  obtain r1 s1 where a: "reactive (VObj 0) (init_state (counter_heap 0)) = (r1, s1)" by fastforce
  obtain r2 s2 where b: "reactive (VObj 0) s1 = (r2, s2)" by fastforce
  obtain r3 s3 where c: "reactive r1 s1 = (r3, s3)" by fastforce
  have "fst (reactive (VObj 0) (init_state (counter_heap 0))) = VProxy 0" by code_simp
  with a have r1: "r1 = VProxy 0" by simp
  from a have s1: "s1 = counter_state 0" by (simp add: counter_state_def)
  from reactive_idempotent_memoized [OF ob a b c] r1 have "r2 = VProxy 0" "r3 = VProxy 0"
    by (auto dest: strict_eq_imp_eq)
  with a b c r1 s1 show ?thesis by simp
qed

theorem track_trigger_closure_witness:
  "activeEffect inside_run = Some 1 \<and> count_key \<noteq> IS_REACTIVE \<and>
   outcome_of (eval 2 read_count inside_run) = Some (Ok (VNum 0)) \<and>
   1 \<in> set (subscribers (state_of (eval 2 read_count inside_run)) (TObj 0) count_key) \<and>
   stack_ok after_run \<and> activeEffect after_run \<noteq> Some 1 \<and>
   1 \<in> set (subscribers after_run (TObj 0) count_key) \<and>
   raw_get after_run 0 count_key = VNum 0 \<and>
   outcome_of (eval 9 (write_count 1) after_run) = Some (Ok (VNum 1)) \<and>
   notified 1 after_run (state_of (eval 9 (write_count 1) after_run)) \<and>
   outcome_of (eval 9 (write_count 0) after_run) = Some (Ok (VNum 0)) \<and>
   trace (state_of (eval 9 (write_count 0) after_run)) = trace after_run"
proof -
  have pt: "proxyTarget inside_run 0 = 0" "proxyTarget after_run 0 = 0" by code_simp+
  have a1: "activeEffect inside_run = Some 1" by code_simp
  have a2: "count_key \<noteq> IS_REACTIVE" by code_simp
  have a3: "outcome_of (eval 2 read_count inside_run) = Some (Ok (VNum 0))" by code_simp
  have b1: "stack_ok after_run" by code_simp
  have b2: "activeEffect after_run \<noteq> Some 1" by code_simp
  have b3: "1 \<in> set (subscribers after_run (TObj 0) count_key)" by code_simp
  have b4: "raw_get after_run 0 count_key = VNum 0" by code_simp
  have b5: "outcome_of (eval 9 (write_count 1) after_run) = Some (Ok (VNum 1))" by code_simp
  have c1: "outcome_of (eval 9 (write_count 0) after_run) = Some (Ok (VNum 0))" by code_simp
  note inst1 = track_trigger_closure [where s = inside_run and c = 1 and k = count_key and n = 2
      and p = 0 and out = "Ok (VNum 0)" and ?s1.0 = "state_of (eval 2 read_count inside_run)"
      and ?s2.0 = after_run and v = "VNum 1" and m = 9 and w = "VNum 1"
      and ?s3.0 = "state_of (eval 9 (write_count 1) after_run)"]
  note inst0 = track_trigger_closure [where k = count_key and p = 0
      and ?s2.0 = after_run and v = "VNum 0" and m = 9 and out' = "Ok (VNum 0)"
      and ?s3.0 = "state_of (eval 9 (write_count 0) after_run)"]
  have p1: "1 \<in> set (subscribers (state_of (eval 2 read_count inside_run)) (TObj 0) count_key)"
    using inst1 a1 a2 result_split [OF a3] pt by (simp add: read_count_def the_proxy_def)
  have p2: "notified 1 after_run (state_of (eval 9 (write_count 1) after_run))"
    using inst1 b1 b2 b3 b4 result_split [OF b5] pt by (simp add: write_count_def the_proxy_def)
  have p3: "trace (state_of (eval 9 (write_count 0) after_run)) = trace after_run"
    using inst0 b4 result_split [OF c1] pt by (simp add: write_count_def the_proxy_def)
  from a1 a2 a3 p1 b1 b2 b3 b4 b5 p2 c1 p3 show ?thesis by blast
qed

end
